theory Spec2Isabelle
  imports Main
begin

section \<open>Selector trees\<close>

text \<open>
  The plugin works on the tree that the selector parser hands to it.  A node has a
  type tag, a value (for an attribute node: the text between the brackets), child
  nodes (the selectors inside a pseudo, the simple selectors inside a selector), the
  plugin's own \<open>processed\<close> mark and the white space kept before and after it.
  Strings are byte strings; the model is exact for ASCII text.
\<close>

datatype ntype =
  TagT | UniversalT | ClassT | IdT | AttributeT | PseudoT | CombinatorT | StringT
  | CommentT | NestingT | SelectorT

datatype node =
  Node (ntype: ntype) (val: string) (nodes: "node list") (processed: bool)
       (before: string) (after: string)

definition set_nodes :: "node \<Rightarrow> node list \<Rightarrow> node" where
  "set_nodes n ns = Node (ntype n) (val n) ns (processed n) (before n) (after n)"

definition set_val :: "node \<Rightarrow> string \<Rightarrow> node" where
  "set_val n v = Node (ntype n) v (nodes n) (processed n) (before n) (after n)"

definition set_before :: "node \<Rightarrow> string \<Rightarrow> node" where
  "set_before n s = Node (ntype n) (val n) (nodes n) (processed n) s (after n)"

definition set_after :: "node \<Rightarrow> string \<Rightarrow> node" where
  "set_after n s = Node (ntype n) (val n) (nodes n) (processed n) (before n) s"

text \<open>\<open>markProcessed\<close> of the source, for a single item.\<close>

definition markProcessed :: "node \<Rightarrow> node" where
  "markProcessed n = Node (ntype n) (val n) (nodes n) True (before n) (after n)"

text \<open>
  The constructors of the parser library that the plugin calls.  A fresh node has no
  children, no mark and no white space.
\<close>

definition mk :: "ntype \<Rightarrow> string \<Rightarrow> node" where
  "mk t v = Node t v [] False [] []"

definition scopeElement :: "string \<Rightarrow> node" where
  "scopeElement scope = mk AttributeT scope"

definition scopeHost :: "string \<Rightarrow> node" where
  "scopeHost scope = mk AttributeT (scope @ ''-host'')"

text \<open>
  \<open>clone\<close> of the library copies every enumerable own property, recursively.  The
  \<open>processed\<close> mark is keyed by a symbol, which such a copy never visits, so a clone
  carries no mark.
\<close>

fun clone :: "node \<Rightarrow> node" where
  "clone (Node t v ns p b a) = Node t v (map clone ns) False b a"

text \<open>
  Serialisation, as the library prints each node type.  A value is printed as it
  stands.  The library escapes the characters of a class name that an identifier
  cannot hold when the value has been assigned; for an assigned value made of
  letters, digits, \<open>-\<close> and \<open>_\<close> that starts with a letter or \<open>_\<close> nothing is
  escaped and the printed text is the one given here.
\<close>

fun join :: "string \<Rightarrow> string list \<Rightarrow> string" where
  "join sep [] = []"
| "join sep [x] = x"
| "join sep (x # y # ys) = x @ sep @ join sep (y # ys)"

fun toString :: "node \<Rightarrow> string" where
  "toString (Node t v ns p b a) =
     (case t of
        ClassT \<Rightarrow> b @ ''.'' @ v @ a
      | IdT \<Rightarrow> b @ ''#'' @ v @ a
      | AttributeT \<Rightarrow> b @ ''['' @ v @ '']'' @ a
      | PseudoT \<Rightarrow>
          b @ v @ (if ns = [] then [] else ''('' @ join '','' (map toString ns) @ '')'') @ a
      | SelectorT \<Rightarrow> concat (map toString ns)
      | _ \<Rightarrow> b @ v @ a)"

section \<open>Object identity inside a selector\<close>

text \<open>
  The source keeps references to nodes of the selector while it splices other nodes
  in, and finds them again with \<open>index\<close> (an identity search).  A selector under
  rewriting is therefore a list of cells: a node together with the identity it had
  when the selector was read (\<open>Some i\<close>), or \<open>None\<close> for a node created since.  An
  item is a reference held by the source: the identity and the node's fields.
\<close>

type_synonym cell = "nat option \<times> node"
type_synonym item = "nat \<times> node"

definition refs :: "node list \<Rightarrow> item list" where
  "refs ns = zip [0..<length ns] ns"

definition cells :: "node list \<Rightarrow> cell list" where
  "cells ns = map (\<lambda>c. (Some (fst c), snd c)) (refs ns)"

text \<open>\<open>Container.index\<close>: the position of the object, \<open>None\<close> for the library's \<open>-1\<close>.\<close>

fun indexOf :: "cell list \<Rightarrow> nat \<Rightarrow> nat option" where
  "indexOf [] r = None"
| "indexOf (c # cs) r = (if fst c = Some r then Some 0 else map_option Suc (indexOf cs r))"

text \<open>
  \<open>Node.replaceWith\<close>: the new nodes are inserted before the node, in order, and the
  node is removed.  A node that is in no container is left alone.
\<close>

definition replaceWith :: "cell list \<Rightarrow> item \<Rightarrow> node list \<Rightarrow> cell list" where
  "replaceWith selector item news =
     (case indexOf selector (fst item) of
        None \<Rightarrow> selector
      | Some i \<Rightarrow> take i selector @ map (Pair None) news @ drop (Suc i) selector)"

text \<open>
  \<open>insertBefore\<close> and \<open>insertAfter\<close> of the source move the white space of the old
  node to the new one and splice the new node in.  The library computes the splice
  position from \<open>index\<close>; for an object that is not in the list it splices at
  \<open>-1\<close> (before the last node), respectively at \<open>0\<close>.
\<close>

definition insertBefore :: "cell list \<Rightarrow> item \<Rightarrow> node \<Rightarrow> cell list" where
  "insertBefore selector oldNode newNode =
     (let new = (None, set_before newNode (before (snd oldNode)));
          old = (Some (fst oldNode), set_before (snd oldNode) [])
      in case indexOf selector (fst oldNode) of
           Some i \<Rightarrow> take i selector @ [new, old] @ drop (Suc i) selector
         | None \<Rightarrow> butlast selector @ [new] @ drop (length selector - 1) selector)"

definition insertAfter :: "cell list \<Rightarrow> item \<Rightarrow> node \<Rightarrow> cell list" where
  "insertAfter selector oldNode newNode =
     (let new = (None, set_after newNode (after (snd oldNode)));
          old = (Some (fst oldNode), set_after (snd oldNode) [])
      in case indexOf selector (fst oldNode) of
           Some i \<Rightarrow> take i selector @ [old, new] @ drop (Suc i) selector
         | None \<Rightarrow> new # selector)"

section \<open>The selector rewriter\<close>

definition isCompoundBoundary :: "node \<Rightarrow> bool" where
  "isCompoundBoundary n = (ntype n = CombinatorT)"

text \<open>
  \<open>getCompound\<close>: references to the first node of every run between combinators.
  The references are the positions the nodes have when the function is called.
\<close>

fun getCompound_loop :: "item list \<Rightarrow> item option \<Rightarrow> item list" where
  "getCompound_loop [] part = []"
| "getCompound_loop (c # cs) part =
     (if isCompoundBoundary (snd c) then getCompound_loop cs None
      else if part = None then c # getCompound_loop cs (Some c)
      else getCompound_loop cs part)"

definition getCompound :: "node \<Rightarrow> item list" where
  "getCompound sel = getCompound_loop (refs (nodes sel)) None"

definition rewriteSelectorPart :: "cell list \<Rightarrow> item \<Rightarrow> string \<Rightarrow> cell list" where
  "rewriteSelectorPart selector item scope =
     (let n = snd item in
      if processed n then selector
      else if ntype n = PseudoT then
        (if val n = '':host'' then replaceWith selector item (scopeHost scope # nodes n)
         else if val n = '':host-context'' then
           replaceWith selector item (nodes n @ [mk StringT '' '', scopeHost scope])
         else selector)
      else if ntype n = TagT \<or> ntype n = UniversalT then
        insertAfter selector item (scopeElement scope)
      else if ntype n = IdT \<or> ntype n = ClassT \<or> ntype n = AttributeT then
        insertBefore selector item (scopeElement scope)
      else selector)"

text \<open>
  \<open>rewriteSlotted\<close>: the new nodes of the selector and the returned flag.
\<close>

definition rewriteSlotted :: "node \<Rightarrow> string \<Rightarrow> node \<times> bool" where
  "rewriteSlotted selector scope =
     (case nodes selector of
        [] \<Rightarrow> (selector, False)
      | n # rest \<Rightarrow>
          if ntype n = PseudoT \<and> val n = ''::slotted'' then
            (set_nodes selector
               ([mk TagT ''slot'', mk AttributeT ''slotted'', scopeElement scope,
                 mk CombinatorT '' > ''] @ nodes n @ rest), True)
          else (selector, False))"

text \<open>
  \<open>rewriteRefs\<close> walks every tag of the selector, nested selectors included.  After
  a \<open>ref\<close> tag and the pseudo behind it are replaced, the walk goes on behind the
  pair; the new attribute is not visited.
\<close>

fun rewriteRefs_nodes :: "node list \<Rightarrow> string \<Rightarrow> node list" where
  "rewriteRefs_nodes [] scope = []"
| "rewriteRefs_nodes [Node t v ns p b a] scope =
     [Node t v (rewriteRefs_nodes ns scope) p b a]"
| "rewriteRefs_nodes (Node t v ns p b a # nxt # rest) scope =
     (if t = TagT \<and> v = ''ref'' \<and> ntype nxt = PseudoT then
        markProcessed (mk AttributeT (''ref-'' @ drop 1 (val nxt) @ ''-'' @ scope))
          # rewriteRefs_nodes rest scope
      else Node t v (rewriteRefs_nodes ns scope) p b a # rewriteRefs_nodes (nxt # rest) scope)"

definition rewriteRefs :: "node \<Rightarrow> string \<Rightarrow> node" where
  "rewriteRefs selector scope = set_nodes selector (rewriteRefs_nodes (nodes selector) scope)"

text \<open>
  The expansion of \<open>::global\<close> and \<open>::local\<close>.  \<open>at\<close> of the library returns
  \<open>undefined\<close> behind the last node, and calling \<open>replaceWith\<close> on that raises a
  \<open>TypeError\<close>: the value \<open>None\<close> of the functions below.
\<close>

definition replaceAt :: "node \<Rightarrow> nat \<Rightarrow> node list \<Rightarrow> node option" where
  "replaceAt sel ix news =
     (if ix < length (nodes sel) then
        Some (set_nodes sel (take ix (nodes sel) @ news @ drop (Suc ix) (nodes sel)))
      else None)"

definition fragment :: "string \<Rightarrow> node \<Rightarrow> node \<Rightarrow> node list" where
  "fragment scope part childSel =
     (if val part = ''::global'' then nodes childSel
      else scopeHost scope # mk StringT '' '' # nodes childSel)"

text \<open>The loop over the selectors inside the pseudo: \<open>for (const childSel of part.nodes)\<close>.\<close>

fun innerReplacements :: "string \<Rightarrow> node \<Rightarrow> nat \<Rightarrow> node \<Rightarrow> node list \<Rightarrow> node list option" where
  "innerReplacements scope part ix repl [] = Some []"
| "innerReplacements scope part ix repl (childSel # rest) =
     (if val part = ''::global'' \<or> val part = ''::local'' then
        (case replaceAt (clone repl) ix (fragment scope part childSel) of
           None \<Rightarrow> None
         | Some sel \<Rightarrow> map_option (Cons sel) (innerReplacements scope part ix repl rest))
      else map_option (Cons (clone repl)) (innerReplacements scope part ix repl rest))"

text \<open>
  The loop \<open>for (let i = replacements.length - 1; i >= 0; i--)\<close>; the counter of
  the model is \<open>i + 1\<close>.
\<close>

fun spliceLoop :: "string \<Rightarrow> node \<Rightarrow> nat \<Rightarrow> nat \<Rightarrow> node list \<Rightarrow> node list option" where
  "spliceLoop scope part ix 0 replacements = Some replacements"
| "spliceLoop scope part ix (Suc i) replacements =
     (case innerReplacements scope part ix (replacements ! i) (nodes part) of
        None \<Rightarrow> None
      | Some inner \<Rightarrow>
          spliceLoop scope part ix i (take i replacements @ inner @ drop (Suc i) replacements))"

text \<open>
  The loop \<open>while (localGlobal.length)\<close>, which pops the references from the end: the
  list given here is \<open>localGlobal\<close> reversed.
\<close>

fun expandLoop :: "string \<Rightarrow> cell list \<Rightarrow> item list \<Rightarrow> node list \<Rightarrow> node list option" where
  "expandLoop scope sel [] replacements = Some replacements"
| "expandLoop scope sel (part # popped) replacements =
     (case indexOf sel (fst part) of
        None \<Rightarrow> expandLoop scope sel popped replacements
      | Some ix \<Rightarrow>
          (case spliceLoop scope (snd part) ix (length replacements) replacements of
             None \<Rightarrow> None
           | Some replacements' \<Rightarrow> expandLoop scope sel popped replacements'))"

definition isLocalGlobal :: "item \<Rightarrow> bool" where
  "isLocalGlobal part =
     (ntype (snd part) = PseudoT \<and> (val (snd part) = ''::global'' \<or> val (snd part) = ''::local''))"

text \<open>
  The first half of \<open>rewriteSelector\<close>: the first and the last reference of
  \<open>scopable\<close> are rewritten in the selector.  \<open>shift\<close> takes the first, \<open>pop\<close> the
  last of what is left.
\<close>

definition scopeEnds :: "node \<Rightarrow> string \<Rightarrow> cell list" where
  "scopeEnds sel scope =
     (let scopable = filter (\<lambda>part. \<not> isLocalGlobal part) (getCompound sel);
          sel0 = cells (nodes sel)
      in case scopable of
           [] \<Rightarrow> sel0
         | first # rest \<Rightarrow>
             (let sel1 = rewriteSelectorPart sel0 first scope
              in if rest = [] then sel1 else rewriteSelectorPart sel1 (last rest) scope))"

text \<open>
  \<open>rewriteSelector\<close> changes the selector in place and, when there is a \<open>::global\<close>
  or \<open>::local\<close> part, replaces the selector in its parent by the expansions.  The
  model returns the changed selector and the expansions (\<open>None\<close> when the selector
  stays); the outer \<open>None\<close> is the \<open>TypeError\<close>.
\<close>

definition rewriteSelector :: "node \<Rightarrow> string \<Rightarrow> (node \<times> node list option) option" where
  "rewriteSelector sel scope =
     (let localGlobal = filter isLocalGlobal (getCompound sel);
          scoped = scopeEnds sel scope;
          sel' = set_nodes sel (map snd scoped)
      in if localGlobal = [] then Some (sel', None)
         else
           (case expandLoop scope scoped (rev localGlobal) [clone sel'] of
              None \<Rightarrow> None
            | Some replacements \<Rightarrow> Some (sel', Some replacements)))"

text \<open>
  \<open>handleSelector\<close>: the refs, then \<open>::slotted\<close> or else the scoping.  The result is
  the changed selector and what \<open>rewriteSelector\<close> puts in its place in the parent
  (\<open>replaceWith\<close> does nothing for a selector that has no parent).
\<close>

definition handleSelector :: "string \<Rightarrow> node \<Rightarrow> (node \<times> node list option) option" where
  "handleSelector scope sel =
     (let sel1 = rewriteRefs sel scope;
          (sel2, slotted) = rewriteSlotted sel1 scope
      in if slotted then Some (sel2, None) else rewriteSelector sel2 scope)"

text \<open>What stands in the root for a selector of the root after \<open>handleSelector\<close>.\<close>

definition inRoot :: "(node \<times> node list option) option \<Rightarrow> node list option" where
  "inRoot r =
     (case r of
        None \<Rightarrow> None
      | Some (sel, None) \<Rightarrow> Some [sel]
      | Some (sel, Some replacements) \<Rightarrow> Some replacements)"

section \<open>Class scoping\<close>

text \<open>
  The options of class scoping.  An absent or empty \<open>prefix\<close> or \<open>suffix\<close> is the
  empty string (the source only tests them for truth and defaults them to the empty
  string); the two regular expressions are taken as predicates on the class name.
\<close>

record ClassScopeOptions =
  prefix :: string
  suffix :: string
  include_re :: "(string \<Rightarrow> bool) option"
  exclude_re :: "(string \<Rightarrow> bool) option"
  full :: bool

datatype classScope = CSBool bool | CSOptions ClassScopeOptions

definition shouldScopeNode :: "node \<Rightarrow> ClassScopeOptions \<Rightarrow> bool" where
  "shouldScopeNode n opts =
     (if ntype n \<noteq> ClassT then False
      else (case exclude_re opts of None \<Rightarrow> True | Some e \<Rightarrow> \<not> e (val n))
         \<and> (case include_re opts of None \<Rightarrow> True | Some i \<Rightarrow> i (val n)))"

definition scopeValue :: "node \<Rightarrow> ClassScopeOptions \<Rightarrow> node" where
  "scopeValue n opts =
     (if shouldScopeNode n opts then set_val n (prefix opts @ val n @ suffix opts) else n)"

definition isIgnoredPseudo :: "node \<Rightarrow> bool" where
  "isIgnoredPseudo n =
     (ntype n = PseudoT \<and>
      val n \<in> set ['':host'', '':host-context'', ''::slotted'', ''::global'', ''::local''])"

text \<open>The node types of the library that have a \<open>nodes\<close> property.\<close>

definition hasNodes :: "node \<Rightarrow> bool" where
  "hasNodes n = (ntype n = PseudoT \<or> ntype n = SelectorT)"

function scopeClassNames :: "node \<Rightarrow> ClassScopeOptions \<Rightarrow> bool \<Rightarrow> node" where
  "scopeClassNames sel opts force =
     (if prefix opts \<noteq> [] \<or> suffix opts \<noteq> [] then
        set_nodes sel
          (map (\<lambda>n.
                 if shouldScopeNode n opts then scopeValue n opts
                 else if hasNodes n \<and> (force \<or> \<not> isIgnoredPseudo n) then
                   set_nodes n (map (\<lambda>child. scopeClassNames child opts False) (nodes n))
                 else n)
             (nodes sel))
      else sel)"
  by pat_completeness auto
termination
proof (relation "measure (\<lambda>(sel, opts, force). size sel)")
  fix sel :: node and opts :: ClassScopeOptions and n child :: node
  have less: "size x < size m" if "x \<in> set (nodes m)" for x m :: node
    using that
    by (cases m) (auto simp: less_Suc_eq_le dest: size_list_estimation'[where f = size and y = "size x"])
  assume "n \<in> set (nodes sel)" and "child \<in> set (nodes n)"
  then have "size child < size n" and "size n < size sel"
    by (auto dest: less)
  then show "((child, opts, False), (sel, opts, force)) \<in> measure (\<lambda>(sel, opts, force). size sel)"
    for force by simp
qed simp

text \<open>\<open>walkClasses\<close> with a callback that stops at the first class to scope.\<close>

function anyClassToScope :: "node \<Rightarrow> ClassScopeOptions \<Rightarrow> bool" where
  "anyClassToScope container opts =
     list_ex (\<lambda>n. shouldScopeNode n opts \<or> anyClassToScope n opts) (nodes container)"
  by pat_completeness auto
termination
proof (relation "measure (\<lambda>(container, opts). size container)")
  fix container n :: node and opts :: ClassScopeOptions
  assume "n \<in> set (nodes container)"
  then have "size n < size container"
    by (cases container) (auto simp: less_Suc_eq_le dest: size_list_estimation'[where f = size and y = "size n"])
  then show "((n, opts), (container, opts)) \<in> measure (\<lambda>(container, opts). size container)"
    by simp
qed simp

text \<open>
  One step of the exhaustive mode at a class: every selector of the list is cloned,
  and the clone's node at the position is scoped.
\<close>

definition scopeAt :: "node \<Rightarrow> nat \<Rightarrow> ClassScopeOptions \<Rightarrow> node" where
  "scopeAt sel i opts = set_nodes sel ((nodes sel)[i := scopeValue (nodes sel ! i) opts])"

text \<open>
  One step at a nested selector: \<open>sel\<close> is cloned again for every expansion \<open>u\<close> of
  the nested selector, and the clone's nested selector is replaced by \<open>u\<close>.
\<close>

definition substituteAt :: "node \<Rightarrow> nat \<Rightarrow> nat \<Rightarrow> node \<Rightarrow> node" where
  "substituteAt sel i j u =
     set_nodes sel ((nodes sel)[i := set_nodes (nodes sel ! i) ((nodes (nodes sel ! i))[j := u])])"

fun pushVariants :: "node \<Rightarrow> nat \<Rightarrow> nat \<Rightarrow> node list \<Rightarrow> node list" where
  "pushVariants sel i j [] = []"
| "pushVariants sel i j (u # us) =
     (let sel' = substituteAt (clone sel) i j u in sel' # pushVariants sel' i j us)"

function scopeClassNamesInContainer :: "node \<Rightarrow> ClassScopeOptions \<Rightarrow> node list" where
  "scopeClassNamesInContainer container opts =
     (if \<not> full opts then
        (if anyClassToScope container opts then [scopeClassNames (clone container) opts True]
         else [])
      else
        tl (fold
              (\<lambda>(i, n) toUpdate.
                 if shouldScopeNode n opts then
                   toUpdate @ map (\<lambda>sel. scopeAt (clone sel) i opts) toUpdate
                 else if ntype n = PseudoT then
                   fold
                     (\<lambda>(j, pseudoSel) toUpdate.
                        toUpdate @
                        concat (map (\<lambda>sel. pushVariants sel i j
                                       (scopeClassNamesInContainer pseudoSel opts)) toUpdate))
                     (refs (nodes n)) toUpdate
                 else toUpdate)
              (refs (nodes container)) [container]))"
  by pat_completeness auto
termination
proof -
  have less: "size x < size m" if "x \<in> set (nodes m)" for x m :: node
    using that
    by (cases m) (auto simp: less_Suc_eq_le dest: size_list_estimation'[where f = size and y = "size x"])
  show ?thesis
    by (relation "measure (\<lambda>(container, opts). size container)")
       (auto simp: refs_def dest!: set_zip_rightD less)
qed

definition isGlobalClassScope :: "classScope option \<Rightarrow> bool" where
  "isGlobalClassScope options =
     (case options of
        Some (CSOptions o') \<Rightarrow> suffix o' \<noteq> [] \<or> prefix o' \<noteq> []
      | _ \<Rightarrow> False)"

definition noOptions :: ClassScopeOptions where
  "noOptions = \<lparr>prefix = [], suffix = [], include_re = None, exclude_re = None, full = False\<rparr>"

definition getClassScopeOptions :: "string \<Rightarrow> classScope \<Rightarrow> ClassScopeOptions" where
  "getClassScopeOptions scope cs =
     (let opt = (case cs of CSBool b \<Rightarrow> noOptions | CSOptions o' \<Rightarrow> o')
      in if prefix opt = [] \<and> suffix opt = [] \<and> scope \<noteq> [] then opt\<lparr>suffix := ''_'' @ scope\<rparr>
         else opt)"

definition enabled :: "classScope option \<Rightarrow> bool" where
  "enabled cs = (case cs of None \<Rightarrow> False | Some (CSBool b) \<Rightarrow> b | Some (CSOptions o') \<Rightarrow> True)"

text \<open>
  The selector processor of the plugin: what one selector of the root becomes.
  Every copy made by the class scoping is handled on its own and put before the
  selector; the walk over the root goes on behind the selector.
\<close>

fun handleCopies :: "string \<Rightarrow> node list \<Rightarrow> node list option" where
  "handleCopies scope [] = Some []"
| "handleCopies scope (selCopy # rest) =
     (case handleSelector scope selCopy of
        None \<Rightarrow> None
      | Some (sel', r) \<Rightarrow> map_option (Cons sel') (handleCopies scope rest))"

definition processSelector :: "string \<Rightarrow> classScope option \<Rightarrow> node \<Rightarrow> node list option" where
  "processSelector scope cs sel =
     (if enabled cs then
        (let classScope = getClassScopeOptions scope (the cs) in
         if isGlobalClassScope cs then
           (case handleCopies scope (scopeClassNamesInContainer sel classScope) of
              None \<Rightarrow> None
            | Some copies \<Rightarrow> map_option (append copies) (inRoot (handleSelector scope sel)))
         else inRoot (handleSelector scope (scopeClassNames sel classScope False)))
      else inRoot (handleSelector scope sel))"

fun processRoot :: "string \<Rightarrow> classScope option \<Rightarrow> node list \<Rightarrow> node list option" where
  "processRoot scope cs [] = Some []"
| "processRoot scope cs (sel # rest) =
     (case processSelector scope cs sel of
        None \<Rightarrow> None
      | Some out \<Rightarrow> map_option (append out) (processRoot scope cs rest))"

section \<open>Names and regular expressions\<close>

text \<open>The character classes \<open>\w\<close> and \<open>\s\<close> of the regular expressions, on ASCII.\<close>

definition isWord :: "char \<Rightarrow> bool" where
  "isWord c = (c \<in> set ''abcdefghijklmnopqrstuvwxyzABCDEFGHIJKLMNOPQRSTUVWXYZ0123456789_'')"

definition isSpace :: "char \<Rightarrow> bool" where
  "isSpace c = (c \<in> set [CHR '' '', CHR 0x09, CHR 0x0A, CHR 0x0B, CHR 0x0C, CHR 0x0D])"

text \<open>\<open>concat\<close> of the source: the name, a separator unless the suffix brings one, the suffix.\<close>

definition concat_str :: "string \<Rightarrow> string \<Rightarrow> string" where
  "concat_str name sfx =
     (let sep = (if take 1 sfx = ''_'' \<or> take 1 sfx = ''-'' then [] else ''-'')
      in name @ sep @ sfx)"

text \<open>\<open>cssName\<close>: one leading match of \<open>-\w+-\<close> is removed.\<close>

definition cssName :: "string \<Rightarrow> string" where
  "cssName propName =
     (case propName of
        [] \<Rightarrow> []
      | c # cs \<Rightarrow>
          (let rest = dropWhile isWord cs
           in if c = CHR ''-'' \<and> takeWhile isWord cs \<noteq> [] \<and> take 1 rest = ''-''
              then drop 1 rest else propName))"

text \<open>
  The first match of \<open>\b(local|global)\b\<close>, scanning from the left.  The flag says
  whether the character before the position is a word character.
\<close>

definition atWordEnd :: "string \<Rightarrow> bool" where
  "atWordEnd rest = (case rest of [] \<Rightarrow> True | c # cs \<Rightarrow> \<not> isWord c)"

fun bareToken :: "bool \<Rightarrow> string \<Rightarrow> string option" where
  "bareToken prevWord [] = None"
| "bareToken prevWord (c # cs) =
     (if \<not> prevWord \<and> take 5 (c # cs) = ''local'' \<and> atWordEnd (drop 5 (c # cs)) then
        Some ''local''
      else if \<not> prevWord \<and> take 6 (c # cs) = ''global'' \<and> atWordEnd (drop 6 (c # cs)) then
        Some ''global''
      else bareToken (isWord c) cs)"

text \<open>
  The replacement of every match of \<open>(\s+and\s+)?(local|global)(\s+and\s+)?\<close> by the
  empty string.  \<open>andGroup\<close> matches \<open>\s+and\s+\<close> at the start of the text and
  \<open>token\<close> matches \<open>local|global\<close> there; both return the text behind the match.
\<close>

definition andGroup :: "string \<Rightarrow> string option" where
  "andGroup s =
     (let a = dropWhile isSpace s; b = drop 3 a; c = dropWhile isSpace b
      in if takeWhile isSpace s \<noteq> [] \<and> take 3 a = ''and'' \<and> takeWhile isSpace b \<noteq> []
         then Some c else None)"

definition token :: "string \<Rightarrow> string option" where
  "token s =
     (if take 5 s = ''local'' then Some (drop 5 s)
      else if take 6 s = ''global'' then Some (drop 6 s)
      else None)"

definition afterToken :: "string \<Rightarrow> string" where
  "afterToken s = (case andGroup s of Some rest \<Rightarrow> rest | None \<Rightarrow> s)"

definition matchHere :: "string \<Rightarrow> string option" where
  "matchHere s =
     (case (case andGroup s of Some r \<Rightarrow> token r | None \<Rightarrow> None) of
        Some rest \<Rightarrow> Some (afterToken rest)
      | None \<Rightarrow> map_option afterToken (token s))"

function stripTokens :: "string \<Rightarrow> string" where
  "stripTokens [] = []"
| "stripTokens (c # cs) =
     (case matchHere (c # cs) of
        Some rest \<Rightarrow> stripTokens rest
      | None \<Rightarrow> c # stripTokens cs)"
  by pat_completeness auto
termination
proof (relation "measure length")
  fix c :: char and cs rest :: string
  assume m: "matchHere (c # cs) = Some rest"
  have tok: "length r < length s" if "token s = Some r" for s r
  proof -
    from that have "s \<noteq> []" by (auto simp: token_def split: if_splits)
    with that show ?thesis by (auto simp: token_def split: if_splits)
  qed
  have grp: "length r \<le> length s" if "andGroup s = Some r" for s r
  proof -
    have "length (dropWhile isSpace (drop 3 (dropWhile isSpace s))) \<le> length s"
      by (rule order_trans[OF length_dropWhile_le]) (simp add: le_diff_conv trans_le_add1 length_dropWhile_le)
    with that show ?thesis
      by (auto simp: andGroup_def Let_def split: if_splits)
  qed
  have aft: "length (afterToken s) \<le> length s" for s
    by (auto simp: afterToken_def dest: grp split: option.splits)
  from m have "length rest < length (c # cs)"
    unfolding matchHere_def
    by (auto split: option.splits dest!: tok grp intro: le_less_trans[OF aft] less_le_trans)
  then show "(rest, c # cs) \<in> measure length" by simp
qed simp_all

text \<open>\<open>split(' ')\<close>: the pieces between single space characters.\<close>

fun split_space :: "string \<Rightarrow> string list" where
  "split_space [] = [[]]"
| "split_space (c # cs) =
     (if c = CHR '' '' then [] # split_space cs
      else (case split_space cs of w # ws \<Rightarrow> (c # w) # ws | [] \<Rightarrow> [[c]]))"

section \<open>The stylesheet pass\<close>

text \<open>
  The stylesheet tree, as the handlers of the plugin read it: an at-rule has a name,
  its parameter text, the nodes of its block and the \<open>processed\<close> mark; a rule has the
  comma-separated selectors of its selector text, its nodes and the mark; a
  declaration has its property, its value and the mark.
\<close>

datatype css =
  CssRoot "css list"
  | CssAtRule string string "css list" bool
  | CssRule "string list" "css list" bool
  | CssDecl string string bool
  | CssComment string

fun isKeyframe :: "css \<Rightarrow> bool" where
  "isKeyframe (CssAtRule name params ns p) = (cssName name = ''keyframes'')"
| "isKeyframe other = False"

fun getMediaScope :: "css \<Rightarrow> string option" where
  "getMediaScope (CssAtRule name params ns p) = bareToken False params"
| "getMediaScope other = None"

definition isRewriteableKeyframe :: "css \<Rightarrow> css option \<Rightarrow> bool" where
  "isRewriteableKeyframe atrule parent =
     (isKeyframe atrule \<and>
      (case parent of None \<Rightarrow> True | Some p \<Rightarrow> getMediaScope p \<noteq> Some ''global''))"

text \<open>\<open>walkAtRules\<close>: every at-rule below the node, at any depth, with its parent.\<close>

fun walkAtRules :: "css \<Rightarrow> (css \<times> css) list"
  and walkAtRules_list :: "css \<Rightarrow> css list \<Rightarrow> (css \<times> css) list"
  and walkAtRules_child :: "css \<Rightarrow> css \<Rightarrow> (css \<times> css) list" where
  "walkAtRules (CssRoot ns) = walkAtRules_list (CssRoot ns) ns"
| "walkAtRules (CssAtRule name params ns p) = walkAtRules_list (CssAtRule name params ns p) ns"
| "walkAtRules (CssRule sels ns p) = walkAtRules_list (CssRule sels ns p) ns"
| "walkAtRules (CssDecl prop v p) = []"
| "walkAtRules (CssComment t) = []"
| "walkAtRules_list parent [] = []"
| "walkAtRules_list parent (child # rest) =
     walkAtRules_child parent child @ walkAtRules_list parent rest"
| "walkAtRules_child parent (CssAtRule name params ns p) =
     (CssAtRule name params ns p, parent)
       # walkAtRules_list (CssAtRule name params ns p) ns"
| "walkAtRules_child parent (CssRoot ns) = walkAtRules_list (CssRoot ns) ns"
| "walkAtRules_child parent (CssRule sels ns p) = walkAtRules_list (CssRule sels ns p) ns"
| "walkAtRules_child parent (CssDecl prop v p) = []"
| "walkAtRules_child parent (CssComment t) = []"

fun params :: "css \<Rightarrow> string" where
  "params (CssAtRule name ps ns p) = ps"
| "params other = []"

text \<open>
  \<open>Once\<close>: the names of the animations.  The scope is the one the stylesheet
  resolves to; the empty string stands for no scope.
\<close>

definition Once :: "string \<Rightarrow> css \<Rightarrow> string set" where
  "Once scope root =
     (if scope = [] then {}
      else
        fold (\<lambda>(atrule, parent) animations.
                if isRewriteableKeyframe atrule (Some parent)
                then insert (params atrule) animations else animations)
          (walkAtRules root) {})"

text \<open>
  \<open>AtRuleExit\<close>: the nodes that stand in the place of the at-rule afterwards.
\<close>

fun AtRuleExit :: "string \<Rightarrow> css option \<Rightarrow> css \<Rightarrow> css list" where
  "AtRuleExit scope parent (CssAtRule name ps ns mark) =
     (if scope = [] \<or> mark then [CssAtRule name ps ns mark]
      else
        (case getMediaScope (CssAtRule name ps ns True) of
           Some mediaScope \<Rightarrow>
             if mediaScope = ps then ns
             else [CssAtRule name (stripTokens ps) ns True]
         | None \<Rightarrow>
             if isRewriteableKeyframe (CssAtRule name ps ns True) parent
             then [CssAtRule name (concat_str ps scope) ns True]
             else [CssAtRule name ps ns True]))"
| "AtRuleExit scope parent other = [other]"

text \<open>
  \<open>scopeClassNamesInRule\<close> and the \<open>Rule\<close> handler.  The selector parser is a
  parameter: it reads one selector of the rule.
\<close>

definition scopeClassNamesInRule ::
    "(string \<Rightarrow> node) \<Rightarrow> string list \<Rightarrow> ClassScopeOptions \<Rightarrow> string list" where
  "scopeClassNamesInRule parse sels opts =
     concat (map (\<lambda>s. map toString (scopeClassNamesInContainer (parse s) opts)
                        @ [toString (parse s)]) sels)"

fun Rule :: "(string \<Rightarrow> node) \<Rightarrow> string \<Rightarrow> classScope option \<Rightarrow> css option \<Rightarrow> css \<Rightarrow> css option" where
  "Rule parse scope cs parent (CssRule sels ns mark) =
     (if scope = [] \<or> mark then Some (CssRule sels ns mark)
      else if (case parent of Some p \<Rightarrow> isKeyframe p | None \<Rightarrow> False) then
        Some (CssRule sels ns True)
      else
        (case (case parent of Some p \<Rightarrow> getMediaScope p | None \<Rightarrow> None) of
           Some mediaScope \<Rightarrow>
             (let sels1 = (if mediaScope = ''local''
                           then map (\<lambda>sel. ''['' @ scope @ ''-host] '' @ sel) sels else sels);
                  sels2 = (case cs of
                             Some (CSOptions opts) \<Rightarrow>
                               if isGlobalClassScope cs
                                  \<and> (mediaScope = ''local'' \<or> mediaScope = ''global'')
                               then scopeClassNamesInRule parse sels1 opts else sels1
                           | _ \<Rightarrow> sels1)
              in Some (CssRule sels2 ns True))
         | None \<Rightarrow>
             map_option (\<lambda>out. CssRule (map toString out) ns True)
               (processRoot scope cs (map parse sels))))"
| "Rule parse scope cs parent other = Some other"

fun Declaration :: "string \<Rightarrow> string set \<Rightarrow> css \<Rightarrow> css" where
  "Declaration scope animations (CssDecl prop v mark) =
     (if scope = [] \<or> mark then CssDecl prop v mark
      else
        (let name = cssName prop in
         if name = ''animation-name'' \<and> v \<in> animations then
           CssDecl prop (concat_str v scope) True
         else if name = ''animation'' then
           CssDecl prop
             (join '' '' (map (\<lambda>chunk. if chunk \<in> animations then concat_str chunk scope else chunk)
                           (split_space v))) True
         else CssDecl prop v True))"
| "Declaration scope animations other = other"

section \<open>Notions used to state the properties\<close>

text \<open>
  The nodes of a container of the stylesheet, and the relation \<open>below root parent n\<close>:
  the node \<open>n\<close> stands somewhere under \<open>root\<close>, and \<open>parent\<close> is the container it
  stands in.
\<close>

fun children :: "css \<Rightarrow> css list" where
  "children (CssRoot ns) = ns"
| "children (CssAtRule name ps ns m) = ns"
| "children (CssRule sels ns m) = ns"
| "children other = []"

fun isAtRule :: "css \<Rightarrow> bool" where
  "isAtRule (CssAtRule name ps ns m) = True"
| "isAtRule other = False"

inductive below :: "css \<Rightarrow> css \<Rightarrow> css \<Rightarrow> bool" where
  top: "c \<in> set (children root) \<Longrightarrow> below root root c"
| step: "below root q p \<Longrightarrow> c \<in> set (children p) \<Longrightarrow> below root p c"

text \<open>
  A text in which neither \<open>local\<close> nor \<open>global\<close> occurs, at any position.
\<close>

fun tokenFree :: "string \<Rightarrow> bool" where
  "tokenFree [] = True"
| "tokenFree (c # cs) =
     (take 5 (c # cs) \<noteq> ''local'' \<and> take 6 (c # cs) \<noteq> ''global'' \<and> tokenFree cs)"

text \<open>
  What one reference becomes when \<open>rewriteSelectorPart\<close> is called for it: the nodes
  that stand in its place.  \<open>scopable\<close> is the list of that name in
  \<open>rewriteSelector\<close>, and \<open>labels\<close> lists the identities of a selector under
  rewriting.
\<close>

definition scopedPart :: "string \<Rightarrow> node \<Rightarrow> node list" where
  "scopedPart scope x = map snd (rewriteSelectorPart [(Some 0, x)] (0, x) scope)"

definition scopable :: "node \<Rightarrow> item list" where
  "scopable sel = filter (\<lambda>part. \<not> isLocalGlobal part) (getCompound sel)"

definition labels :: "cell list \<Rightarrow> nat list" where
  "labels cs = concat (map (\<lambda>c. case fst c of None \<Rightarrow> [] | Some r \<Rightarrow> [r]) cs)"

text \<open>
  For the exhaustive mode of the class scoping: a selector whose pseudos hold no
  selectors, the positions of its classes to scope, the sets of positions in the
  order the variants are made in, and the variant of a selector for a set of
  positions (the selector itself for the empty set, else a copy in which the classes
  at these positions are scoped).
\<close>

definition noNestedLists :: "node \<Rightarrow> bool" where
  "noNestedLists sel = list_all (\<lambda>n. nodes n = []) (filter (\<lambda>n. ntype n = PseudoT) (nodes sel))"

definition qualifying :: "node \<Rightarrow> ClassScopeOptions \<Rightarrow> nat list" where
  "qualifying sel opts = map fst (filter (\<lambda>c. shouldScopeNode (snd c) opts) (refs (nodes sel)))"

definition variantSets :: "nat list \<Rightarrow> nat list list" where
  "variantSets qs = fold (\<lambda>q T. T @ map (\<lambda>S. S @ [q]) T) qs [[]]"

definition decoratedNodes :: "node list \<Rightarrow> ClassScopeOptions \<Rightarrow> nat list \<Rightarrow> node list" where
  "decoratedNodes ns opts S =
     map (\<lambda>c. if fst c \<in> set S then scopeValue (clone (snd c)) opts else clone (snd c)) (refs ns)"

definition decorated :: "node \<Rightarrow> ClassScopeOptions \<Rightarrow> nat list \<Rightarrow> node" where
  "decorated sel opts S =
     (if S = [] then sel else set_nodes (clone sel) (decoratedNodes (nodes sel) opts S))"

text \<open>
  For the expansion of \<open>::global\<close> and \<open>::local\<close>: the list \<open>localGlobal\<close> of
  \<open>rewriteSelector\<close>; the cells of a selector that are such parts, given the set of
  their identities; and the selectors the expansion is to give, read off a selector
  from left to right: a part stands for each of its alternatives in turn (the nodes of
  the alternative for \<open>::global\<close>; the scope-host attribute, a space string and the
  nodes of the alternative for \<open>::local\<close>), every other node stands for itself, and
  the alternatives of a part further left change faster.  \<open>variantsAt\<close> is what one
  pass of the innermost loop makes of one selector.
\<close>

definition localGlobal :: "node \<Rightarrow> item list" where
  "localGlobal sel = filter isLocalGlobal (getCompound sel)"

definition isPart :: "nat set \<Rightarrow> cell \<Rightarrow> bool" where
  "isPart K c = (case fst c of Some k \<Rightarrow> k \<in> K | None \<Rightarrow> False)"

fun expansions :: "string \<Rightarrow> nat set \<Rightarrow> cell list \<Rightarrow> node list list" where
  "expansions scope K [] = [[]]"
| "expansions scope K (c # cs) =
     (if isPart K c then
        concat (map (\<lambda>rest. map (\<lambda>childSel. fragment scope (snd c) childSel @ rest) (nodes (snd c)))
                  (expansions scope K cs))
      else map (Cons (snd c)) (expansions scope K cs))"

definition variantsAt :: "string \<Rightarrow> node \<Rightarrow> nat \<Rightarrow> node \<Rightarrow> node list" where
  "variantsAt scope part ix r =
     map (\<lambda>childSel. set_nodes (clone r)
            (take ix (nodes (clone r)) @ fragment scope part childSel @ drop (Suc ix) (nodes (clone r))))
       (nodes part)"

section \<open>The wording of the specification\<close>

text \<open>
  The specification says that the value of an \<open>animation\<close> declaration is split on
  white space and rejoined with single spaces.  The two definitions below follow these
  words; they are compared with the \<open>Declaration\<close> handler further down.
\<close>

fun spec_split_whitespace :: "string \<Rightarrow> string list" where
  "spec_split_whitespace [] = [[]]"
| "spec_split_whitespace (c # cs) =
     (if isSpace c then [] # spec_split_whitespace cs
      else (case spec_split_whitespace cs of w # ws \<Rightarrow> (c # w) # ws | [] \<Rightarrow> [[c]]))"

definition spec_animation_value :: "string \<Rightarrow> string set \<Rightarrow> string \<Rightarrow> string" where
  "spec_animation_value scope animations v =
     join '' '' (map (\<lambda>chunk. if chunk \<in> animations then concat_str chunk scope else chunk)
                   (spec_split_whitespace v))"

text \<open>
  The specification says that the names of the animations are those of the keyframes
  at-rules that are not nested, at any depth, inside a boundary tagged \<open>global\<close>.
  \<open>spec_names\<close> follows these words: the flag says whether a boundary tagged
  \<open>global\<close> is open around the node.
\<close>

fun spec_names :: "bool \<Rightarrow> css \<Rightarrow> string list"
  and spec_names_list :: "bool \<Rightarrow> css list \<Rightarrow> string list" where
  "spec_names inGlobal (CssAtRule name ps ns m) =
     (if isKeyframe (CssAtRule name ps ns m) \<and> \<not> inGlobal then [ps] else [])
     @ spec_names_list (inGlobal \<or> bareToken False ps = Some ''global'') ns"
| "spec_names inGlobal (CssRoot ns) = spec_names_list inGlobal ns"
| "spec_names inGlobal (CssRule sels ns m) = spec_names_list inGlobal ns"
| "spec_names inGlobal (CssDecl prop v m) = []"
| "spec_names inGlobal (CssComment t) = []"
| "spec_names_list inGlobal [] = []"
| "spec_names_list inGlobal (n # ns) = spec_names inGlobal n @ spec_names_list inGlobal ns"

section \<open>Sample selectors\<close>

text \<open>
  The trees the selector parser builds for the selectors used as examples: a selector
  node around the simple selectors, a descendant combinator whose value is the space,
  and a child combinator that keeps its blanks as white space around \<open>>\<close>.
\<close>

definition selector :: "node list \<Rightarrow> node" where
  "selector ns = Node SelectorT [] ns False [] []"

definition descendant :: node where
  "descendant = mk CombinatorT '' ''"

definition childOf :: node where
  "childOf = Node CombinatorT ''>'' [] False '' '' '' ''"

definition pseudo :: "string \<Rightarrow> node list \<Rightarrow> node" where
  "pseudo v sels = Node PseudoT v sels False [] []"

text \<open>
  The trees the parser builds for a selector that is one tag name, and for one that is
  one class name.
\<close>

definition parseTag :: "string \<Rightarrow> node" where
  "parseTag s = selector [mk TagT s]"

definition parseClass :: "string \<Rightarrow> node" where
  "parseClass s = selector [mk ClassT (drop 1 s)]"

text \<open>
  The trees for \<open>div ::global(a, b) span\<close> and \<open>x ::local(p, q) y\<close>: the blank
  behind the comma is white space before the second alternative.
\<close>

definition divGlobalSpan :: node where
  "divGlobalSpan =
     selector [mk TagT ''div'', descendant,
               pseudo ''::global'' [selector [mk TagT ''a''], selector [Node TagT ''b'' [] False '' '' []]],
               descendant, mk TagT ''span'']"

definition xLocalY :: node where
  "xLocalY =
     selector [mk TagT ''x'', descendant,
               pseudo ''::local'' [selector [mk TagT ''p''], selector [Node TagT ''q'' [] False '' '' []]],
               descendant, mk TagT ''y'']"

section \<open>Basic facts\<close>

lemma set_nodes_simps [simp]:
  "nodes (set_nodes n ns) = ns" "ntype (set_nodes n ns) = ntype n" "val (set_nodes n ns) = val n"
  "processed (set_nodes n ns) = processed n" "before (set_nodes n ns) = before n"
  "after (set_nodes n ns) = after n" "set_nodes (set_nodes n ns) ms = set_nodes n ms"
  "set_nodes n (nodes n) = n"
  by (cases n; simp add: set_nodes_def)+

text \<open>
  The equations of the three recursive functions of the class scoping are used for
  selectors that are given by their constructor only.
\<close>

declare scopeClassNames.simps [simp del]
declare anyClassToScope.simps [simp del]
declare scopeClassNamesInContainer.simps [simp del]

lemma scopeClassNames_Node [simp]:
  "scopeClassNames (Node t v ns p b a) opts force =
     (if prefix opts \<noteq> [] \<or> suffix opts \<noteq> [] then
        Node t v
          (map (\<lambda>n.
                 if shouldScopeNode n opts then scopeValue n opts
                 else if hasNodes n \<and> (force \<or> \<not> isIgnoredPseudo n) then
                   set_nodes n (map (\<lambda>child. scopeClassNames child opts False) (nodes n))
                 else n) ns) p b a
      else Node t v ns p b a)"
  by (subst scopeClassNames.simps) (simp add: set_nodes_def)

lemma anyClassToScope_Node [simp]:
  "anyClassToScope (Node t v ns p b a) opts =
     list_ex (\<lambda>n. shouldScopeNode n opts \<or> anyClassToScope n opts) ns"
  by (subst anyClassToScope.simps) simp

lemma scopeClassNamesInContainer_Node [simp]:
  "scopeClassNamesInContainer (Node t v ns p b a) opts =
     (if \<not> full opts then
        (if anyClassToScope (Node t v ns p b a) opts
         then [scopeClassNames (clone (Node t v ns p b a)) opts True] else [])
      else
        tl (fold
              (\<lambda>(i, n) toUpdate.
                 if shouldScopeNode n opts then
                   toUpdate @ map (\<lambda>sel. scopeAt (clone sel) i opts) toUpdate
                 else if ntype n = PseudoT then
                   fold
                     (\<lambda>(j, pseudoSel) toUpdate.
                        toUpdate @
                        concat (map (\<lambda>sel. pushVariants sel i j
                                       (scopeClassNamesInContainer pseudoSel opts)) toUpdate))
                     (refs (nodes n)) toUpdate
                 else toUpdate)
              (refs ns) [Node t v ns p b a]))"
  by (subst scopeClassNamesInContainer.simps) simp

section \<open>Ref bindings\<close>

lemma rewriteRefs_nodes_append:
  "ntype x \<noteq> PseudoT \<Longrightarrow>
   rewriteRefs_nodes (pre @ x # ys) scope = rewriteRefs_nodes pre scope @ rewriteRefs_nodes (x # ys) scope"
proof (induction pre scope rule: rewriteRefs_nodes.induct)
  case (1 scope)
  then show ?case by simp
next
  case (2 t v ns p b a scope)
  then show ?case by (cases x) auto
next
  case (3 t v ns p b a nxt rest scope)
  then show ?case by auto
qed

lemma rewriteRefs_nodes_pseudo:
  "ntype p = PseudoT \<Longrightarrow>
   rewriteRefs_nodes (p # rest) scope =
     set_nodes p (rewriteRefs_nodes (nodes p) scope) # rewriteRefs_nodes rest scope"
  by (cases p; cases rest) (auto simp: set_nodes_def)

lemma rewriteRefs_nodes_first:
  "rewriteRefs_nodes ns scope = p # rest \<Longrightarrow> ntype p = PseudoT \<Longrightarrow>
   \<exists>q rest'. ns = q # rest' \<and> ntype q = PseudoT \<and> val q = val p"
proof (induction ns scope rule: rewriteRefs_nodes.induct)
  case (3 t v ns p' b a nxt rest' scope)
  then show ?case by (auto simp: markProcessed_def mk_def split: if_splits)
qed auto

text \<open>
  C7, as the code has it.  Wherever a tag named \<open>ref\<close> stands directly before a
  pseudo, the two nodes become one attribute node named \<open>ref-\<close>, the name of the pseudo
  without its first character, \<open>-\<close> and the scope: the scope is always joined with
  \<open>-\<close>, whatever its first character is.  The attribute carries the \<open>processed\<close>
  mark, and \<open>rewriteSelectorPart\<close> leaves a selector alone when it is asked to scope
  such a node.
\<close>

theorem ref_pair_replaced:
  assumes "ntype nxt = PseudoT"
  shows "rewriteRefs_nodes (pre @ Node TagT ''ref'' ns p b a # nxt # rest) scope =
           rewriteRefs_nodes pre scope
           @ Node AttributeT (''ref-'' @ drop 1 (val nxt) @ ''-'' @ scope) [] True [] []
           # rewriteRefs_nodes rest scope
         \<and> rewriteSelectorPart sel
             (r, Node AttributeT (''ref-'' @ drop 1 (val nxt) @ ''-'' @ scope) [] True [] []) scope
           = sel"
  using assms
  by (simp add: rewriteRefs_nodes_append markProcessed_def mk_def rewriteSelectorPart_def)

theorem ref_pair_replaced_witness:
  "ntype (pseudo '':foo'' []) = PseudoT
   \<and> rewriteRefs_nodes [mk ClassT ''a'', mk TagT ''ref'', pseudo '':foo'' [], mk ClassT ''b''] ''s''
       = [mk ClassT ''a'', Node AttributeT ''ref-foo-s'' [] True [] [], mk ClassT ''b'']"
  using ref_pair_replaced[of "pseudo '':foo'' []" "[mk ClassT ''a'']" "[]" False "[]" "[]"
      "[mk ClassT ''b'']" "''s''" "[]" 0]
  by (simp add: pseudo_def mk_def)

text \<open>
  C7 as the specification words it fails: for the scope \<open>_s\<close> the concatenation rule
  gives \<open>ref-foo_s\<close>, the code names the attribute \<open>ref-foo-_s\<close>.
\<close>

theorem ref_name_ignores_concat_rule:
  "map val (rewriteRefs_nodes [mk TagT ''ref'', pseudo '':foo'' []] ''_s'') = [''ref-foo-_s'']
   \<and> map val (rewriteRefs_nodes [mk TagT ''ref'', pseudo '':foo'' []] ''_s'')
       \<noteq> [concat_str (''ref-'' @ drop 1 '':foo'') ''_s'']"
  by (simp add: pseudo_def mk_def markProcessed_def concat_str_def)

section \<open>Slotted selectors\<close>

text \<open>
  C5.  A selector is rewritten by \<open>rewriteSlotted\<close> exactly when its first node is
  the pseudo \<open>::slotted\<close>.  Then the pseudo gives way to the tag \<open>slot\<close>, the
  attribute \<open>slotted\<close>, the scope attribute, the combinator \<open>>\<close> and the nodes inside
  the pseudo, in this order, and \<open>handleSelector\<close> returns this selector without
  calling \<open>rewriteSelector\<close>: nothing is scoped at its ends.  In every other case
  \<open>rewriteSlotted\<close> returns the selector as it is and \<open>rewriteSelector\<close> runs.  The
  last part is the sample \<open>::slotted(.x)\<close>.
\<close>

theorem slotted_first:
  "handleSelector scope sel =
     (case nodes sel of
        [] \<Rightarrow> rewriteSelector (rewriteRefs sel scope) scope
      | p # rest \<Rightarrow>
          if ntype p = PseudoT \<and> val p = ''::slotted'' then
            Some (set_nodes sel
                    (mk TagT ''slot'' # mk AttributeT ''slotted'' # mk AttributeT scope
                     # mk CombinatorT '' > ''
                     # rewriteRefs_nodes (nodes p) scope @ rewriteRefs_nodes rest scope), None)
          else rewriteSelector (rewriteRefs sel scope) scope)
   \<and> rewriteSlotted sel scope =
     (case nodes sel of
        [] \<Rightarrow> (sel, False)
      | p # rest \<Rightarrow>
          if ntype p = PseudoT \<and> val p = ''::slotted'' then
            (set_nodes sel
               (mk TagT ''slot'' # mk AttributeT ''slotted'' # mk AttributeT scope
                # mk CombinatorT '' > '' # nodes p @ rest), True)
          else (sel, False))
   \<and> map_option (toString \<circ> fst)
       (handleSelector ''s'' (selector [pseudo ''::slotted'' [selector [mk ClassT ''x'']]]))
     = Some ''slot[slotted][s] > .x''"
proof (intro conjI)
  show "handleSelector scope sel =
     (case nodes sel of
        [] \<Rightarrow> rewriteSelector (rewriteRefs sel scope) scope
      | p # rest \<Rightarrow>
          if ntype p = PseudoT \<and> val p = ''::slotted'' then
            Some (set_nodes sel
                    (mk TagT ''slot'' # mk AttributeT ''slotted'' # mk AttributeT scope
                     # mk CombinatorT '' > ''
                     # rewriteRefs_nodes (nodes p) scope @ rewriteRefs_nodes rest scope), None)
          else rewriteSelector (rewriteRefs sel scope) scope)"
  proof (cases "nodes sel")
    case Nil
    then show ?thesis
      by (simp add: handleSelector_def rewriteRefs_def rewriteSlotted_def)
  next
    case (Cons p rest)
    show ?thesis
    proof (cases "ntype p = PseudoT \<and> val p = ''::slotted''")
      case True
      then show ?thesis
        using Cons
        by (simp add: handleSelector_def rewriteRefs_def rewriteSlotted_def
            rewriteRefs_nodes_pseudo scopeElement_def)
    next
      case False
      have "snd (rewriteSlotted (rewriteRefs sel scope) scope) = False"
        using False Cons rewriteRefs_nodes_first[of "nodes sel" scope]
        by (auto simp: rewriteSlotted_def rewriteRefs_def split: list.splits)
      moreover have "fst (rewriteSlotted (rewriteRefs sel scope) scope) = rewriteRefs sel scope"
        using False Cons rewriteRefs_nodes_first[of "nodes sel" scope]
        by (auto simp: rewriteSlotted_def rewriteRefs_def split: list.splits)
      ultimately show ?thesis
        using False Cons by (auto simp: handleSelector_def split_beta)
    qed
  qed
next
  show "rewriteSlotted sel scope =
     (case nodes sel of
        [] \<Rightarrow> (sel, False)
      | p # rest \<Rightarrow>
          if ntype p = PseudoT \<and> val p = ''::slotted'' then
            (set_nodes sel
               (mk TagT ''slot'' # mk AttributeT ''slotted'' # mk AttributeT scope
                # mk CombinatorT '' > '' # nodes p @ rest), True)
          else (sel, False))"
    by (auto simp: rewriteSlotted_def scopeElement_def split: list.splits)
next
  show "map_option (toString \<circ> fst)
       (handleSelector ''s'' (selector [pseudo ''::slotted'' [selector [mk ClassT ''x'']]]))
     = Some ''slot[slotted][s] > .x''"
    by (simp add: handleSelector_def rewriteRefs_def rewriteSlotted_def selector_def mk_def
        set_nodes_def scopeElement_def pseudo_def)
qed

section \<open>Declarations\<close>

lemma split_space_ne: "split_space v \<noteq> []"
  by (induction v) (auto split: list.splits)

lemma join_split_space: "join '' '' (split_space v) = v"
proof (induction v)
  case Nil
  then show ?case by simp
next
  case (Cons c v)
  then show ?case
    using split_space_ne[of v]
    by (cases "split_space v"; cases "tl (split_space v)") (auto split: list.splits)
qed

lemma split_space_no_space: "list_all (\<lambda>chunk. CHR '' '' \<notin> set chunk) (split_space v)"
  by (induction v) (auto split: list.splits)

lemma cssName_vendor:
  assumes "w \<noteq> []" "list_all isWord w"
  shows "cssName (''-'' @ w @ ''-'' @ name) = name"
proof -
  have "\<not> isWord CHR ''-''" by (simp add: isWord_def)
  with assms have "takeWhile isWord (w @ ''-'' @ name) = w"
    and "dropWhile isWord (w @ ''-'' @ name) = ''-'' @ name"
    by (auto simp: list_all_iff takeWhile_append dropWhile_append
        takeWhile_eq_all_conv[THEN iffD2] dropWhile_eq_Nil_conv[THEN iffD2])
  with assms show ?thesis by (simp add: cssName_def Let_def)
qed

text \<open>
  C8, as the code has it.  For a declaration without the mark (and a scope), the
  property is compared after \<open>cssName\<close> took a vendor prefix \<open>-w-\<close> off.  For
  \<open>animation-name\<close> with a collected value the scope is appended by the
  concatenation rule.  For \<open>animation\<close> the value is cut at every single space
  character and at no other white space (the pieces hold no space, and joined by
  single spaces they give the value back), every piece that is a collected name gets
  the scope appended, and the pieces are joined by single spaces.  Every other
  declaration keeps its value.
\<close>

theorem declaration_rewrite:
  assumes "scope \<noteq> []" and "w \<noteq> []" and "list_all isWord w"
  shows "Declaration scope animations (CssDecl prop v False) =
           CssDecl prop
             (if cssName prop = ''animation-name'' \<and> v \<in> animations then concat_str v scope
              else if cssName prop = ''animation'' then
                join '' '' (map (\<lambda>chunk. if chunk \<in> animations then concat_str chunk scope else chunk)
                              (split_space v))
              else v) True
         \<and> join '' '' (split_space v) = v
         \<and> list_all (\<lambda>chunk. CHR '' '' \<notin> set chunk) (split_space v)
         \<and> cssName (''-'' @ w @ ''-'' @ name) = name"
proof -
  have "Declaration scope animations (CssDecl prop v False) =
           CssDecl prop
             (if cssName prop = ''animation-name'' \<and> v \<in> animations then concat_str v scope
              else if cssName prop = ''animation'' then
                join '' '' (map (\<lambda>chunk. if chunk \<in> animations then concat_str chunk scope else chunk)
                              (split_space v))
              else v) True"
    using assms(1) by (simp add: Let_def)
  then show ?thesis
    using cssName_vendor[OF assms(2,3)] join_split_space split_space_no_space by blast
qed

theorem declaration_rewrite_witness:
  "''s'' \<noteq> [] \<and> ''webkit'' \<noteq> [] \<and> list_all isWord ''webkit''
   \<and> Declaration ''s'' {''spin''} (CssDecl ''-webkit-animation'' ''spin 1s  spin'' False)
       = CssDecl ''-webkit-animation'' ''spin-s 1s  spin-s'' True
   \<and> cssName ''-webkit-animation'' = ''animation''"
  using declaration_rewrite[of "''s''" "''webkit''" "{''spin''}" "''-webkit-animation''"
      "''spin 1s  spin''" "''animation''"]
  by (simp add: isWord_def concat_str_def)

text \<open>
  C8 as the specification words it fails.  In \<open>spin<TAB>1s\<close> the name \<open>spin\<close> is a
  piece of the value when the value is split on white space, and the claim gives
  \<open>spin-s 1s\<close>; the code splits on the space character only and leaves the value as
  it is.
\<close>

theorem animation_split_on_space_only:
  "Declaration ''s'' {''spin''} (CssDecl ''animation'' (''spin'' @ [CHR 0x09] @ ''1s'') False)
     = CssDecl ''animation'' (''spin'' @ [CHR 0x09] @ ''1s'') True
   \<and> spec_animation_value ''s'' {''spin''} (''spin'' @ [CHR 0x09] @ ''1s'') = ''spin-s 1s''
   \<and> Declaration ''s'' {''spin''} (CssDecl ''animation'' (''spin'' @ [CHR 0x09] @ ''1s'') False)
     \<noteq> CssDecl ''animation'' (spec_animation_value ''s'' {''spin''} (''spin'' @ [CHR 0x09] @ ''1s'')) True"
  by (simp add: cssName_def isWord_def spec_animation_value_def isSpace_def concat_str_def)

section \<open>The walk over the at-rules\<close>

lemma fold_collect:
  "fold (\<lambda>(atrule, parent) animations.
           if P atrule parent then insert (params atrule) animations else animations) xs A
   = A \<union> {params a | a p. (a, p) \<in> set xs \<and> P a p}"
proof (induction xs arbitrary: A)
  case Nil
  then show ?case by simp
next
  case (Cons x xs)
  obtain a p where x: "x = (a, p)" by (cases x)
  show ?case
    unfolding x by (simp add: Cons.IH) blast
qed

lemma Once_eq:
  "scope \<noteq> [] \<Longrightarrow>
   Once scope root =
     {params a | a p. (a, p) \<in> set (walkAtRules root) \<and> isKeyframe a \<and> getMediaScope p \<noteq> Some ''global''}"
  by (simp add: Once_def fold_collect isRewriteableKeyframe_def)

lemma below_trans: "below n p a \<Longrightarrow> below root q n \<Longrightarrow> below root p a"
proof (induction rule: below.induct)
  case (top c r)
  then show ?case by (auto intro: below.step)
next
  case (step r q' p c)
  then show ?case by (auto intro: below.step)
qed

lemma walk_sound:
  "(a, p) \<in> set (walkAtRules n) \<Longrightarrow> below n p a \<and> isAtRule a"
  "(a, p) \<in> set (walkAtRules_list par ns) \<Longrightarrow> set ns \<subseteq> set (children par) \<Longrightarrow> below par p a \<and> isAtRule a"
  "(a, p) \<in> set (walkAtRules_child par c) \<Longrightarrow> c \<in> set (children par) \<Longrightarrow> below par p a \<and> isAtRule a"
proof (induction n and par ns and par c rule: walkAtRules_walkAtRules_list_walkAtRules_child.induct)
  case (8 parent name params ns p')
  have "c' \<in> set (children parent) \<Longrightarrow> below c' p a \<Longrightarrow> below parent p a" for c'
    using below_trans[OF _ below.top] by blast
  with 8 show ?case
    by (auto intro: below.top)
next
  case (9 parent ns)
  have "c' \<in> set (children parent) \<Longrightarrow> below c' p a \<Longrightarrow> below parent p a" for c'
    using below_trans[OF _ below.top] by blast
  with 9 show ?case
    by (auto intro: below.top)
next
  case (10 parent sels ns p')
  have "c' \<in> set (children parent) \<Longrightarrow> below c' p a \<Longrightarrow> below parent p a" for c'
    using below_trans[OF _ below.top] by blast
  with 10 show ?case
    by (auto intro: below.top)
qed (auto)

lemma walk_list_mem:
  "c \<in> set ns \<Longrightarrow> set (walkAtRules_child par c) \<subseteq> set (walkAtRules_list par ns)"
  by (induction ns) auto

lemma walk_child_self:
  "isAtRule c \<Longrightarrow> (c, par) \<in> set (walkAtRules_child par c)"
  by (cases c) auto

lemma walk_child_sub:
  "set (walkAtRules c) \<subseteq> set (walkAtRules_child par c)"
  by (cases c) auto

lemma walk_children:
  "c \<in> set (children n) \<Longrightarrow> set (walkAtRules_child n c) \<subseteq> set (walkAtRules n)"
  by (cases n) (auto dest: walk_list_mem)

lemma walk_below_sub:
  "below root q p \<Longrightarrow> set (walkAtRules p) \<subseteq> set (walkAtRules root)"
proof (induction rule: below.induct)
  case (top c root)
  then show ?case using walk_child_sub walk_children by blast
next
  case (step root q p c)
  then show ?case using walk_child_sub walk_children by blast
qed

lemma walk_complete:
  assumes "below root p a" and "isAtRule a"
  shows "(a, p) \<in> set (walkAtRules root)"
  using assms
proof (cases rule: below.cases)
  case top
  then show ?thesis using assms(2) walk_child_self walk_children by blast
next
  case (step q)
  then have "(a, p) \<in> set (walkAtRules p)"
    using assms(2) walk_child_self walk_children by blast
  then show ?thesis using walk_below_sub[OF step(1)] by blast
qed

lemma walk_iff: "(a, p) \<in> set (walkAtRules root) \<longleftrightarrow> below root p a \<and> isAtRule a"
  using walk_sound(1) walk_complete by blast

section \<open>Stripping the boundary token\<close>

lemma tokenFree_drop: "tokenFree x \<Longrightarrow> tokenFree (drop n x)"
proof (induction x arbitrary: n)
  case Nil
  then show ?case by simp
next
  case (Cons c cs)
  then show ?case by (cases n) auto
qed

lemma tokenFree_dropWhile: "tokenFree x \<Longrightarrow> tokenFree (dropWhile P x)"
  by (induction x) auto

lemma tokenFree_token: "tokenFree r \<Longrightarrow> token r = None"
  by (cases r) (auto simp: token_def)

lemma token_before_space:
  assumes "tokenFree x"
  shows "token (x @ CHR '' '' # y) = None"
proof -
  let ?s = "x @ CHR '' '' # y"
  have l: "take 5 ?s \<noteq> ''local''"
  proof
    assume eq: "take 5 ?s = ''local''"
    show False
    proof (cases "length x < 5")
      case True
      then have "take 5 ?s ! length x = CHR '' ''"
        by (simp add: nth_append)
      with eq have "''local'' ! length x = CHR '' ''" by simp
      moreover from True have "length x = 0 \<or> length x = 1 \<or> length x = 2 \<or> length x = 3 \<or> length x = 4"
        by arith
      ultimately show False by auto
    next
      case False
      then have "take 5 ?s = take 5 x" by simp
      moreover from False have "x \<noteq> []" by auto
      ultimately show False using assms eq by (cases x) auto
    qed
  qed
  have g: "take 6 ?s \<noteq> ''global''"
  proof
    assume eq: "take 6 ?s = ''global''"
    show False
    proof (cases "length x < 6")
      case True
      then have "take 6 ?s ! length x = CHR '' ''"
        by (simp add: nth_append)
      with eq have "''global'' ! length x = CHR '' ''" by simp
      moreover from True have "length x = 0 \<or> length x = 1 \<or> length x = 2 \<or> length x = 3 \<or> length x = 4 \<or> length x = 5"
        by arith
      ultimately show False by auto
    next
      case False
      then have "take 6 ?s = take 6 x" by simp
      moreover from False have "x \<noteq> []" by auto
      ultimately show False using assms eq by (cases x) auto
    qed
  qed
  from l g show ?thesis by (simp add: token_def)
qed

lemma tokenFree_matchHere: "tokenFree s \<Longrightarrow> matchHere s = None"
  by (auto simp: matchHere_def andGroup_def Let_def tokenFree_token tokenFree_drop tokenFree_dropWhile
      split: option.splits)

lemma tokenFree_stripTokens: "tokenFree s \<Longrightarrow> stripTokens s = s"
proof (induction s)
  case Nil
  then show ?case by simp
next
  case (Cons c cs)
  then have "stripTokens cs = cs" by simp
  then show ?case using tokenFree_matchHere[OF Cons.prems] by simp
qed

lemma strip_token_first:
  assumes "t = ''local'' \<or> t = ''global''" and "tokenFree rest" and "rest \<noteq> []"
    and "\<not> isSpace (hd rest)"
  shows "stripTokens (t @ '' and '' @ rest) = rest"
proof -
  have "dropWhile isSpace rest = rest"
    using assms(3,4) by (cases rest) auto
  then have "afterToken ('' and '' @ rest) = rest"
    by (simp add: afterToken_def andGroup_def isSpace_def)
  then have "matchHere (t @ '' and '' @ rest) = Some rest"
    using assms(1) by (auto simp: matchHere_def andGroup_def isSpace_def token_def)
  then show ?thesis
    using assms(1) tokenFree_stripTokens[OF assms(2)] by auto
qed

lemma strip_tail:
  assumes "t = ''local'' \<or> t = ''global''"
  shows "stripTokens ('' and '' @ t) = []"
proof -
  have "matchHere ('' and '' @ t) = Some []"
    using assms by (auto simp: matchHere_def andGroup_def isSpace_def token_def afterToken_def)
  then show ?thesis by simp
qed

lemma no_match_before_tail:
  assumes t: "t = ''local'' \<or> t = ''global''" and free: "tokenFree x" and ne: "x \<noteq> []"
    and last: "\<not> isSpace (last x)"
  shows "matchHere (x @ '' and '' @ t) = None"
proof -
  let ?tail = "'' and '' @ t"
  have tok: "token (x @ ?tail) = None"
    using token_before_space[OF free] by simp
  have grp: "token r = None" if g: "andGroup (x @ ?tail) = Some r" for r
  proof -
    define x1 where "x1 = dropWhile isSpace x"
    have a: "dropWhile isSpace (x @ ?tail) = x1 @ ?tail"
      unfolding x1_def using ne last by (intro dropWhile_append1[of "last x"]) auto
    have x1: "x1 \<noteq> []" "tokenFree x1" "last x1 = last x"
      unfolding x1_def using ne last free dropWhile_last[of "last x" x isSpace]
      by (auto simp: tokenFree_dropWhile dropWhile_eq_Nil_conv)
    from g a have and3: "take 3 (x1 @ ?tail) = ''and''"
      and r: "r = dropWhile isSpace (drop 3 (x1 @ ?tail))"
      by (auto simp: andGroup_def Let_def split: if_splits)
    show ?thesis
    proof (cases "length x1 < 3")
      case True
      then have "take 3 (x1 @ ?tail) ! length x1 = CHR '' ''"
        by (simp add: nth_append)
      with and3 have "''and'' ! length x1 = CHR '' ''" by simp
      moreover from True x1(1) have "length x1 = 1 \<or> length x1 = 2"
        by (cases x1) (auto simp: less_Suc_eq numeral_3_eq_3)
      ultimately show ?thesis by auto
    next
      case False
      show ?thesis
      proof (cases "length x1 = 3")
        case True
        then have "r = ''and '' @ t"
          using r t by (auto simp: isSpace_def)
        then show ?thesis using t by (auto simp: token_def)
      next
        case False
        define x2 where "x2 = drop 3 x1"
        from False \<open>\<not> length x1 < 3\<close> have x2: "x2 \<noteq> []" "last x2 = last x"
          unfolding x2_def using x1(3) by auto
        have "last x2 \<in> set x2" "\<not> isSpace (last x2)"
          using x2 last last_in_set[of x2] by auto
        then have "dropWhile isSpace (x2 @ ?tail) = dropWhile isSpace x2 @ ?tail"
          by (rule dropWhile_append1)
        moreover have "drop 3 (x1 @ ?tail) = x2 @ ?tail"
          using False \<open>\<not> length x1 < 3\<close> unfolding x2_def by simp
        ultimately have "r = dropWhile isSpace x2 @ ?tail"
          using r by simp
        moreover have "tokenFree (dropWhile isSpace x2)"
          unfolding x2_def by (simp add: tokenFree_dropWhile tokenFree_drop x1(2))
        ultimately show ?thesis
          using token_before_space by simp
      qed
    qed
  qed
  show ?thesis
    using tok grp by (auto simp: matchHere_def split: option.splits)
qed

lemma strip_token_last:
  assumes "t = ''local'' \<or> t = ''global''" and "tokenFree rest" and "rest \<noteq> []"
    and "\<not> isSpace (last rest)"
  shows "stripTokens (rest @ '' and '' @ t) = rest"
  using assms(2-)
proof (induction rest)
  case Nil
  then show ?case by simp
next
  case (Cons c cs)
  have m: "matchHere ((c # cs) @ '' and '' @ t) = None"
    using no_match_before_tail[OF assms(1) Cons.prems] .
  show ?case
  proof (cases "cs = []")
    case True
    then show ?thesis using m strip_tail[OF assms(1)] by simp
  next
    case False
    then have "stripTokens (cs @ '' and '' @ t) = cs"
      using Cons by simp
    then show ?thesis using m by simp
  qed
qed

lemma bareToken_tail:
  assumes "t = ''local'' \<or> t = ''global''"
  shows "bareToken pw ('' and '' @ t) = Some t"
  using assms by (auto simp: isWord_def atWordEnd_def)

lemma bareToken_skip:
  "take 5 (c # s) \<noteq> ''local'' \<Longrightarrow> take 6 (c # s) \<noteq> ''global'' \<Longrightarrow>
   bareToken pw (c # s) = bareToken (isWord c) s"
  by (simp only: bareToken.simps simp_thms if_False)

lemma bareToken_token_last:
  assumes "t = ''local'' \<or> t = ''global''" and "tokenFree rest"
  shows "bareToken pw (rest @ '' and '' @ t) = Some t"
  using assms(2)
proof (induction rest arbitrary: pw)
  case Nil
  then show ?case using bareToken_tail[OF assms(1)] by simp
next
  case (Cons c cs)
  have "token ((c # cs) @ CHR '' '' # ''and '' @ t) = None"
    using token_before_space[OF Cons.prems] .
  then have "take 5 (c # cs @ '' and '' @ t) \<noteq> ''local''" "take 6 (c # cs @ '' and '' @ t) \<noteq> ''global''"
    by (auto simp: token_def split: if_splits)
  then have "bareToken pw (c # cs @ '' and '' @ t) = bareToken (isWord c) (cs @ '' and '' @ t)"
    by (rule bareToken_skip)
  also have "\<dots> = Some t"
    using Cons by simp
  finally show ?case by simp
qed

lemma bareToken_token_first:
  assumes "t = ''local'' \<or> t = ''global''"
  shows "bareToken False (t @ '' and '' @ rest) = Some t"
  using assms by (auto simp: isWord_def atWordEnd_def)

text \<open>
  When the word stands in the middle, the \<open>and\<close> on both sides goes with it and the
  two neighbours are run together.
\<close>

lemma strip_token_middle: "stripTokens ''screen and local and print'' = ''screenprint''"
  by (simp add: matchHere_def andGroup_def token_def afterToken_def isSpace_def)

section \<open>At-rules at exit\<close>

lemma matchHere_shorter:
  assumes m: "matchHere s = Some rest"
  shows "length rest < length s"
proof -
  have tok: "length r < length u" if "token u = Some r" for u r
  proof -
    from that have "u \<noteq> []" by (auto simp: token_def split: if_splits)
    with that show ?thesis by (auto simp: token_def split: if_splits)
  qed
  have grp: "length r \<le> length u" if "andGroup u = Some r" for u r
  proof -
    have "length (dropWhile isSpace (drop 3 (dropWhile isSpace u))) \<le> length u"
      by (rule order_trans[OF length_dropWhile_le]) (simp add: le_diff_conv trans_le_add1 length_dropWhile_le)
    with that show ?thesis
      by (auto simp: andGroup_def Let_def split: if_splits)
  qed
  have aft: "length (afterToken u) \<le> length u" for u
    by (auto simp: afterToken_def dest: grp split: option.splits)
  from m show ?thesis
    unfolding matchHere_def
    by (auto split: option.splits dest!: tok grp intro: le_less_trans[OF aft] less_le_trans)
qed

lemma length_stripTokens: "length (stripTokens s) \<le> length s"
proof (induction s rule: stripTokens.induct)
  case 1
  then show ?case by simp
next
  case (2 c cs)
  show ?case
  proof (cases "matchHere (c # cs)")
    case None
    then show ?thesis using 2 by simp
  next
    case (Some rest)
    then show ?thesis using 2(2)[OF Some] matchHere_shorter[OF Some] by simp
  qed
qed

lemma bareToken_cases: "bareToken pw s = Some m \<Longrightarrow> m = ''local'' \<or> m = ''global''"
  by (induction pw s rule: bareToken.induct) (auto split: if_splits)

lemma not_own_child: "ns \<noteq> [CssAtRule name ps ns m]"
proof
  assume "ns = [CssAtRule name ps ns m]"
  then have "size_list size ns = size_list size [CssAtRule name ps ns m]" by simp
  then show False by simp
qed

lemma concat_str_longer: "scope \<noteq> [] \<Longrightarrow> length ps < length (concat_str ps scope)"
  by (simp add: concat_str_def Let_def)

lemma matchHere_shorter5:
  assumes m: "matchHere s = Some rest"
  shows "length rest + 5 \<le> length s"
proof -
  have tok: "length r + 5 \<le> length u" if "token u = Some r" for u r
  proof -
    have "5 \<le> length u" if "take 5 u = ''local''" for u :: string
    proof -
      from that have "length (take 5 u) = 5" by simp
      then show ?thesis by simp
    qed
    moreover have "6 \<le> length u" if "take 6 u = ''global''" for u :: string
    proof -
      from that have "length (take 6 u) = 6" by simp
      then show ?thesis by simp
    qed
    ultimately show ?thesis
      using that by (fastforce simp: token_def split: if_splits)
  qed
  have grp: "length r \<le> length u" if "andGroup u = Some r" for u r
  proof -
    have "length (dropWhile isSpace (drop 3 (dropWhile isSpace u))) \<le> length u"
      by (rule order_trans[OF length_dropWhile_le]) (simp add: le_diff_conv trans_le_add1 length_dropWhile_le)
    with that show ?thesis
      by (auto simp: andGroup_def Let_def split: if_splits)
  qed
  have aft: "length (afterToken u) \<le> length u" for u
    by (auto simp: afterToken_def dest: grp split: option.splits)
  show ?thesis
  proof (cases "case andGroup s of Some r \<Rightarrow> token r | None \<Rightarrow> None")
    case None
    with m obtain r where r: "token s = Some r" "rest = afterToken r"
      by (auto simp: matchHere_def)
    then show ?thesis using tok[OF r(1)] aft[of r] by simp
  next
    case (Some r)
    then obtain g where g: "andGroup s = Some g" "token g = Some r"
      by (auto split: option.splits)
    from Some m have "rest = afterToken r" by (simp add: matchHere_def)
    then show ?thesis using tok[OF g(2)] grp[OF g(1)] aft[of r] by simp
  qed
qed

lemma matchHere_None_token: "matchHere s = None \<Longrightarrow> token s = None"
  by (auto simp: matchHere_def split: option.splits)

lemma strip_shrinks: "\<not> tokenFree s \<Longrightarrow> length (stripTokens s) + 5 \<le> length s"
proof (induction s rule: stripTokens.induct)
  case 1
  then show ?case by simp
next
  case (2 c cs)
  show ?case
  proof (cases "matchHere (c # cs)")
    case None
    then have "token (c # cs) = None" by (rule matchHere_None_token)
    then have "take 5 (c # cs) \<noteq> ''local''" "take 6 (c # cs) \<noteq> ''global''"
      by (auto simp: token_def split: if_splits)
    with 2(3) have "\<not> tokenFree cs" by auto
    then have "length (stripTokens cs) + 5 \<le> length cs" by (rule 2(1)[OF None])
    then show ?thesis using None by simp
  next
    case (Some rest)
    have "length (stripTokens rest) \<le> length rest" by (rule length_stripTokens)
    then show ?thesis using Some matchHere_shorter5[OF Some] by simp
  qed
qed

lemma bareToken_not_tokenFree: "bareToken pw s = Some t \<Longrightarrow> \<not> tokenFree s"
  by (induction pw s rule: bareToken.induct) (auto split: if_splits)

text \<open>
  C10.  Whether an at-rule is an encapsulation boundary is read from its parameter
  text alone: \<open>getMediaScope\<close> gives the same answer for every name.  For an at-rule
  without the mark (and a scope) whose parameters hold the bare word \<open>t\<close>, the exit
  handler puts the nodes of the block in its place when the parameters are the word,
  and strips the parameters otherwise.  The stripping takes at least the five
  characters of a word away; when the word stands last or first, joined to the rest
  by \<open>and\<close> (the rest holding neither word and no white space at its ends), the
  parameters become the rest, whatever the name of the at-rule is.  The result is
  never the at-rule with the scope appended to its parameters.  A keyframes at-rule
  with such parameters is collected by \<open>Once\<close> all the same (its parent not being
  tagged \<open>global\<close>), and an \<open>animation-name\<close> declaration with a collected value
  gets the scope appended.
\<close>

theorem boundary_by_params_only:
  assumes "scope \<noteq> []" and "bareToken False ps = Some t"
  shows "getMediaScope (CssAtRule name ps ns m) = Some t
    \<and> AtRuleExit scope parent (CssAtRule name ps ns False)
        = (if t = ps then ns else [CssAtRule name (stripTokens ps) ns True])
    \<and> length (stripTokens ps) + 5 \<le> length ps
    \<and> ((w = ''local'' \<or> w = ''global'') \<and> tokenFree rest \<and> rest \<noteq> []
          \<and> \<not> isSpace (hd rest) \<and> \<not> isSpace (last rest)
        \<longrightarrow> AtRuleExit scope parent (CssAtRule name (rest @ '' and '' @ w) ns False)
              = [CssAtRule name rest ns True]
            \<and> AtRuleExit scope parent (CssAtRule name (w @ '' and '' @ rest) ns False)
              = [CssAtRule name rest ns True])
    \<and> AtRuleExit scope parent (CssAtRule name ps ns False)
        \<noteq> [CssAtRule name (concat_str ps scope) ns True]
    \<and> (below root par (CssAtRule name ps ns m) \<and> cssName name = ''keyframes''
          \<and> getMediaScope par \<noteq> Some ''global''
        \<longrightarrow> ps \<in> Once scope root)
    \<and> (cssName prop = ''animation-name'' \<and> ps \<in> animations
        \<longrightarrow> Declaration scope animations (CssDecl prop ps False)
              = CssDecl prop (concat_str ps scope) True)"
proof (intro conjI impI)
  show "getMediaScope (CssAtRule name ps ns m) = Some t"
    using assms by simp
  show exit: "AtRuleExit scope parent (CssAtRule name ps ns False)
        = (if t = ps then ns else [CssAtRule name (stripTokens ps) ns True])"
    using assms by simp
  show "length (stripTokens ps) + 5 \<le> length ps"
    using bareToken_not_tokenFree[OF assms(2)] by (rule strip_shrinks)
  show "AtRuleExit scope parent (CssAtRule name ps ns False)
        \<noteq> [CssAtRule name (concat_str ps scope) ns True]"
  proof (cases "t = ps")
    case True
    then show ?thesis using exit not_own_child by simp
  next
    case False
    have "stripTokens ps \<noteq> concat_str ps scope"
      using length_stripTokens[of ps] concat_str_longer[OF assms(1), of ps] by auto
    then show ?thesis using exit False by simp
  qed
next
  assume h: "(w = ''local'' \<or> w = ''global'') \<and> tokenFree rest \<and> rest \<noteq> []
          \<and> \<not> isSpace (hd rest) \<and> \<not> isSpace (last rest)"
  then have w: "w = ''local'' \<or> w = ''global''" and free: "tokenFree rest" and ne: "rest \<noteq> []"
    and first: "\<not> isSpace (hd rest)" and last: "\<not> isSpace (last rest)"
    by simp_all
  have "bareToken False (rest @ '' and '' @ w) = Some w"
    by (rule bareToken_token_last[OF w free])
  moreover have "w \<noteq> rest @ '' and '' @ w"
  proof
    assume "w = rest @ '' and '' @ w"
    then have "length w = length (rest @ '' and '' @ w)" by simp
    then show False by simp
  qed
  ultimately show "AtRuleExit scope parent (CssAtRule name (rest @ '' and '' @ w) ns False)
        = [CssAtRule name rest ns True]"
    using assms(1) strip_token_last[OF w free ne last] by simp
  have "bareToken False (w @ '' and '' @ rest) = Some w"
    by (rule bareToken_token_first[OF w])
  moreover have "w \<noteq> w @ '' and '' @ rest"
  proof
    assume "w = w @ '' and '' @ rest"
    then have "length w = length (w @ '' and '' @ rest)" by simp
    then show False by simp
  qed
  ultimately show "AtRuleExit scope parent (CssAtRule name (w @ '' and '' @ rest) ns False)
        = [CssAtRule name rest ns True]"
    using assms(1) strip_token_first[OF w free ne first] by simp
next
  assume "below root par (CssAtRule name ps ns m) \<and> cssName name = ''keyframes''
          \<and> getMediaScope par \<noteq> Some ''global''"
  then have "(CssAtRule name ps ns m, par) \<in> set (walkAtRules root)"
    and "isKeyframe (CssAtRule name ps ns m)" and "getMediaScope par \<noteq> Some ''global''"
    by (auto intro: walk_complete)
  then show "ps \<in> Once scope root"
    unfolding Once_eq[OF assms(1)] by force
next
  assume "cssName prop = ''animation-name'' \<and> ps \<in> animations"
  then show "Declaration scope animations (CssDecl prop ps False)
              = CssDecl prop (concat_str ps scope) True"
    using assms(1) by simp
qed

text \<open>
  The samples for C10: \<open>@keyframes local { from {} }\<close> at the top of the stylesheet
  is unwrapped, \<open>@keyframes global and spin\<close> and \<open>@keyframes spin and global\<close>
  become \<open>@keyframes spin\<close> with no scope appended.
\<close>

theorem boundary_by_params_only_witness:
  "''s'' \<noteq> [] \<and> bareToken False ''local'' = Some ''local''
   \<and> bareToken False ''global and spin'' = Some ''global''
   \<and> tokenFree ''spin'' \<and> \<not> isSpace (hd ''spin'') \<and> \<not> isSpace (last ''spin'')
   \<and> AtRuleExit ''s'' (Some (CssRoot [CssAtRule ''keyframes'' ''local'' [CssRule [''from''] [] False] False]))
       (CssAtRule ''keyframes'' ''local'' [CssRule [''from''] [] False] False)
     = [CssRule [''from''] [] False]
   \<and> AtRuleExit ''s'' (Some (CssRoot [])) (CssAtRule ''keyframes'' ''global and spin'' [] False)
     = [CssAtRule ''keyframes'' ''spin'' [] True]
   \<and> AtRuleExit ''s'' (Some (CssRoot [])) (CssAtRule ''keyframes'' ''spin and global'' [] False)
     = [CssAtRule ''keyframes'' ''spin'' [] True]
   \<and> length (stripTokens ''global and spin'') + 5 \<le> length ''global and spin''
   \<and> ''local'' \<in> Once ''s'' (CssRoot [CssAtRule ''keyframes'' ''local'' [CssRule [''from''] [] False] False])
   \<and> Declaration ''s'' {''local''} (CssDecl ''animation-name'' ''local'' False)
     = CssDecl ''animation-name'' ''local-s'' True"
proof -
  let ?k = "CssAtRule ''keyframes'' ''local'' [CssRule [''from''] [] False] False"
  have h: "''s'' \<noteq> []" "bareToken False ''local'' = Some ''local''"
    by (simp_all add: atWordEnd_def)
  have g: "bareToken False ''global and spin'' = Some ''global''"
    by (simp add: atWordEnd_def isWord_def)
  have r: "(''global'' = ''local'' \<or> ''global'' = ''global'') \<and> tokenFree ''spin'' \<and> ''spin'' \<noteq> []
      \<and> \<not> isSpace (hd ''spin'') \<and> \<not> isSpace (last ''spin'')"
    by (simp add: isSpace_def)
  have b: "below (CssRoot [?k]) (CssRoot [?k]) ?k"
    by (rule below.top) simp
  have k: "cssName ''keyframes'' = ''keyframes''" "cssName ''animation-name'' = ''animation-name''"
    by (simp_all add: cssName_def)
  show ?thesis
    using boundary_by_params_only[OF h, of "''keyframes''" "[CssRule [''from''] [] False]" False
        "Some (CssRoot [?k])" "''global''" "''spin''" "CssRoot [?k]" "CssRoot [?k]" "''animation-name''" "{''local''}"]
      boundary_by_params_only[OF h(1) g, of "''keyframes''" "[]" False
        "Some (CssRoot [])" "''global''" "''spin''" "CssRoot []" "CssRoot []" "''animation-name''" "{}"]
      h g r b k
    by (simp add: concat_str_def)
qed


section \<open>The names of the animations\<close>

lemma Declaration_uncollected:
  assumes "scope \<noteq> []" and "v \<notin> A" and "list_all (\<lambda>chunk. chunk \<notin> A) (split_space v)"
  shows "Declaration scope A (CssDecl prop v False) = CssDecl prop v True"
proof -
  have "map (\<lambda>chunk. if chunk \<in> A then concat_str chunk scope else chunk) (split_space v)
        = split_space v"
    using assms(3) by (induction "split_space v") (auto simp: list_all_iff map_idI)
  then show ?thesis
    using assms(1,2) by (simp add: Let_def join_split_space)
qed

text \<open>
  C4, as the code has it.  With a scope, \<open>Once\<close> collects exactly the parameters of
  the keyframes at-rules, at any depth, whose parent (the container they stand in) is
  not tagged \<open>global\<close>; what lies further out does not count.  At exit, a keyframes
  at-rule without the mark whose parent is not tagged \<open>global\<close> and whose own
  parameters hold no bare \<open>local\<close> or \<open>global\<close> has the scope appended by the
  concatenation rule; one whose parent is tagged \<open>global\<close> keeps its parameters.  A
  declaration whose value and whose pieces are not collected keeps its value.
\<close>

theorem animation_names_by_parent:
  assumes "scope \<noteq> []"
  shows "(x \<in> Once scope root \<longleftrightarrow>
            (\<exists>name ns m parent. below root parent (CssAtRule name x ns m)
               \<and> cssName name = ''keyframes'' \<and> getMediaScope parent \<noteq> Some ''global''))
    \<and> (cssName name = ''keyframes'' \<and> getMediaScope parent \<noteq> Some ''global''
          \<and> bareToken False ps = None
        \<longrightarrow> AtRuleExit scope (Some parent) (CssAtRule name ps ns False)
              = [CssAtRule name (concat_str ps scope) ns True])
    \<and> (getMediaScope parent = Some ''global'' \<and> bareToken False ps = None
        \<longrightarrow> AtRuleExit scope (Some parent) (CssAtRule name ps ns False)
              = [CssAtRule name ps ns True])
    \<and> (v \<notin> Once scope root \<and> list_all (\<lambda>chunk. chunk \<notin> Once scope root) (split_space v)
        \<longrightarrow> Declaration scope (Once scope root) (CssDecl prop v False) = CssDecl prop v True)"
proof (intro conjI impI)
  show "x \<in> Once scope root \<longleftrightarrow>
            (\<exists>name ns m parent. below root parent (CssAtRule name x ns m)
               \<and> cssName name = ''keyframes'' \<and> getMediaScope parent \<noteq> Some ''global'')"
  proof
    assume "x \<in> Once scope root"
    then obtain a p where ap: "x = params a" "(a, p) \<in> set (walkAtRules root)" "isKeyframe a"
      "getMediaScope p \<noteq> Some ''global''"
      unfolding Once_eq[OF assms] by auto
    then obtain name ns m where a: "a = CssAtRule name x ns m"
      by (cases a) auto
    with ap show "\<exists>name ns m parent. below root parent (CssAtRule name x ns m)
               \<and> cssName name = ''keyframes'' \<and> getMediaScope parent \<noteq> Some ''global''"
      using walk_sound(1)[OF ap(2)] by auto
  next
    assume "\<exists>name ns m parent. below root parent (CssAtRule name x ns m)
               \<and> cssName name = ''keyframes'' \<and> getMediaScope parent \<noteq> Some ''global''"
    then obtain name ns m parent where b: "below root parent (CssAtRule name x ns m)"
      "cssName name = ''keyframes''" "getMediaScope parent \<noteq> Some ''global''"
      by auto
    then have "(CssAtRule name x ns m, parent) \<in> set (walkAtRules root)"
      by (auto intro: walk_complete)
    with b show "x \<in> Once scope root"
      unfolding Once_eq[OF assms] by force
  qed
next
  assume "cssName name = ''keyframes'' \<and> getMediaScope parent \<noteq> Some ''global''
          \<and> bareToken False ps = None"
  then show "AtRuleExit scope (Some parent) (CssAtRule name ps ns False)
              = [CssAtRule name (concat_str ps scope) ns True]"
    using assms by (simp add: isRewriteableKeyframe_def)
next
  assume "getMediaScope parent = Some ''global'' \<and> bareToken False ps = None"
  then show "AtRuleExit scope (Some parent) (CssAtRule name ps ns False)
              = [CssAtRule name ps ns True]"
    using assms by (simp add: isRewriteableKeyframe_def)
next
  assume "v \<notin> Once scope root \<and> list_all (\<lambda>chunk. chunk \<notin> Once scope root) (split_space v)"
  then show "Declaration scope (Once scope root) (CssDecl prop v False) = CssDecl prop v True"
    using Declaration_uncollected[OF assms] by blast
qed

text \<open>
  The sample for C4: \<open>@keyframes spin\<close> at the top and \<open>@keyframes fade\<close> inside
  \<open>@media global\<close>.
\<close>

theorem animation_names_by_parent_witness:
  "''s'' \<noteq> []
   \<and> Once ''s'' (CssRoot [CssAtRule ''keyframes'' ''spin'' [] False,
                          CssAtRule ''media'' ''global'' [CssAtRule ''keyframes'' ''fade'' [] False] False])
       = {''spin''}
   \<and> AtRuleExit ''s'' (Some (CssRoot [])) (CssAtRule ''keyframes'' ''spin'' [] False)
       = [CssAtRule ''keyframes'' ''spin-s'' [] True]
   \<and> AtRuleExit ''s'' (Some (CssAtRule ''media'' ''global'' [CssAtRule ''keyframes'' ''fade'' [] False] False))
        (CssAtRule ''keyframes'' ''fade'' [] False)
       = [CssAtRule ''keyframes'' ''fade'' [] True]
   \<and> Declaration ''s''
        (Once ''s'' (CssRoot [CssAtRule ''keyframes'' ''spin'' [] False,
                              CssAtRule ''media'' ''global'' [CssAtRule ''keyframes'' ''fade'' [] False] False]))
        (CssDecl ''animation'' ''fade 1s'' False)
       = CssDecl ''animation'' ''fade 1s'' True"
proof -
  let ?g = "CssAtRule ''media'' ''global'' [CssAtRule ''keyframes'' ''fade'' [] False] False"
  let ?root = "CssRoot [CssAtRule ''keyframes'' ''spin'' [] False, ?g]"
  have s: "''s'' \<noteq> []" by simp
  have once: "Once ''s'' ?root = {''spin''}"
    by (simp add: Once_def isRewriteableKeyframe_def cssName_def atWordEnd_def)
  have k: "cssName ''keyframes'' = ''keyframes''"
    by (simp add: cssName_def)
  have g: "getMediaScope ?g = Some ''global''" "getMediaScope (CssRoot []) \<noteq> Some ''global''"
    "bareToken False ''spin'' = None" "bareToken False ''fade'' = None"
    by (simp_all add: atWordEnd_def isWord_def)
  have d: "''fade 1s'' \<notin> Once ''s'' ?root"
    "list_all (\<lambda>chunk. chunk \<notin> Once ''s'' ?root) (split_space ''fade 1s'')"
    unfolding once by simp_all
  show ?thesis
    using animation_names_by_parent[OF s, of _ ?root "''keyframes''" "CssRoot []" "''spin''" "[]"
        "''fade 1s''" "''animation''"]
      animation_names_by_parent[OF s, of _ ?root "''keyframes''" ?g "''fade''" "[]"
        "''fade 1s''" "''animation''"]
      once k g d
    by (simp add: concat_str_def)
qed

text \<open>
  C4 as the specification words it fails: a keyframes at-rule inside \<open>@supports\<close>
  inside \<open>@media global\<close> is nested in a boundary tagged \<open>global\<close>, so the
  specification collects nothing; the code looks at the parent only, collects
  \<open>spin\<close> and renames the at-rule at exit.  And \<open>@keyframes local\<close> is collected
  but not renamed at exit: its own parameters make it a boundary.
\<close>

theorem keyframes_deeper_in_global_collected:
  "Once ''s'' (CssRoot [CssAtRule ''media'' ''global''
                          [CssAtRule ''supports'' ''(display: grid)''
                             [CssAtRule ''keyframes'' ''spin'' [] False] False] False])
     = {''spin''}
   \<and> spec_names False (CssRoot [CssAtRule ''media'' ''global''
                          [CssAtRule ''supports'' ''(display: grid)''
                             [CssAtRule ''keyframes'' ''spin'' [] False] False] False])
     = []
   \<and> AtRuleExit ''s''
        (Some (CssAtRule ''supports'' ''(display: grid)'' [CssAtRule ''keyframes'' ''spin'' [] False] False))
        (CssAtRule ''keyframes'' ''spin'' [] False)
     = [CssAtRule ''keyframes'' ''spin-s'' [] True]
   \<and> Once ''s'' (CssRoot [CssAtRule ''keyframes'' ''local'' [CssRule [''from''] [] False] False])
     = {''local''}
   \<and> AtRuleExit ''s''
        (Some (CssRoot [CssAtRule ''keyframes'' ''local'' [CssRule [''from''] [] False] False]))
        (CssAtRule ''keyframes'' ''local'' [CssRule [''from''] [] False] False)
     = [CssRule [''from''] [] False]"
  by (simp add: Once_def isRewriteableKeyframe_def cssName_def atWordEnd_def isWord_def concat_str_def)

section \<open>Encapsulation boundaries\<close>

lemma bareToken_whole:
  "t = ''local'' \<or> t = ''global'' \<Longrightarrow> bareToken False t = Some t"
  by (auto simp: atWordEnd_def)

text \<open>
  C3, as the code has it.  For an at-rule without the mark (and a scope): when its
  parameters are the word \<open>local\<close> or \<open>global\<close>, the exit handler puts the nodes of
  its block in its place; when the word stands last or first, joined to the rest by
  \<open>and\<close>, the parameters become the rest (the rest holding neither word and no
  white space at its ends); in every case with a bare word the result is either of
  these two, so no keyframe name is appended.  A rule without the mark whose parent
  is tagged \<open>local\<close> and is not a keyframes at-rule gets \<open>[scope-host]\<close> and a space
  before each selector; under a parent tagged \<open>global\<close> the selectors stay; when
  class scoping with a prefix or suffix is set, \<open>scopeClassNamesInRule\<close> then runs on
  these selectors; a rule whose parent is a keyframes at-rule is never changed,
  whatever the parameters of the parent are.
\<close>

theorem boundary_exit_and_rules:
  assumes "scope \<noteq> []" and "t = ''local'' \<or> t = ''global''"
    and "tokenFree rest" and "rest \<noteq> []" and "\<not> isSpace (hd rest)" and "\<not> isSpace (last rest)"
  shows "AtRuleExit scope parent (CssAtRule name t ns False) = ns
    \<and> AtRuleExit scope parent (CssAtRule name (rest @ '' and '' @ t) ns False)
        = [CssAtRule name rest ns True]
    \<and> AtRuleExit scope parent (CssAtRule name (t @ '' and '' @ rest) ns False)
        = [CssAtRule name rest ns True]
    \<and> (bareToken False ps = Some t'
        \<longrightarrow> AtRuleExit scope parent (CssAtRule name ps ns False)
              = (if t' = ps then ns else [CssAtRule name (stripTokens ps) ns True]))
    \<and> (\<not> isKeyframe p \<and> getMediaScope p = Some ''local'' \<and> \<not> isGlobalClassScope cs
        \<longrightarrow> Rule parse scope cs (Some p) (CssRule sels body False)
              = Some (CssRule (map (\<lambda>sel. ''['' @ scope @ ''-host] '' @ sel) sels) body True))
    \<and> (\<not> isKeyframe p \<and> getMediaScope p = Some ''global'' \<and> \<not> isGlobalClassScope cs
        \<longrightarrow> Rule parse scope cs (Some p) (CssRule sels body False) = Some (CssRule sels body True))
    \<and> (\<not> isKeyframe p \<and> getMediaScope p = Some m \<and> isGlobalClassScope cs \<and> cs = Some (CSOptions opts)
        \<longrightarrow> Rule parse scope cs (Some p) (CssRule sels body False)
              = Some (CssRule
                        (scopeClassNamesInRule parse
                           (if m = ''local'' then map (\<lambda>sel. ''['' @ scope @ ''-host] '' @ sel) sels
                            else sels) opts)
                        body True))
    \<and> (isKeyframe p
        \<longrightarrow> Rule parse scope cs (Some p) (CssRule sels body False) = Some (CssRule sels body True))"
proof (intro conjI impI)
  show "AtRuleExit scope parent (CssAtRule name t ns False) = ns"
    using assms(1) bareToken_whole[OF assms(2)] by simp
  have "bareToken False (rest @ '' and '' @ t) = Some t"
    by (rule bareToken_token_last[OF assms(2,3)])
  moreover have "t \<noteq> rest @ '' and '' @ t"
  proof
    assume "t = rest @ '' and '' @ t"
    then have "length t = length (rest @ '' and '' @ t)" by simp
    then show False by simp
  qed
  ultimately show "AtRuleExit scope parent (CssAtRule name (rest @ '' and '' @ t) ns False)
        = [CssAtRule name rest ns True]"
    using assms(1) strip_token_last[OF assms(2,3,4,6)] by simp
  have "bareToken False (t @ '' and '' @ rest) = Some t"
    by (rule bareToken_token_first[OF assms(2)])
  moreover have "t \<noteq> t @ '' and '' @ rest"
  proof
    assume "t = t @ '' and '' @ rest"
    then have "length t = length (t @ '' and '' @ rest)" by simp
    then show False by simp
  qed
  ultimately show "AtRuleExit scope parent (CssAtRule name (t @ '' and '' @ rest) ns False)
        = [CssAtRule name rest ns True]"
    using assms(1) strip_token_first[OF assms(2,3,4,5)] by simp
next
  assume "bareToken False ps = Some t'"
  then show "AtRuleExit scope parent (CssAtRule name ps ns False)
              = (if t' = ps then ns else [CssAtRule name (stripTokens ps) ns True])"
    using assms(1) by simp
next
  assume "\<not> isKeyframe p \<and> getMediaScope p = Some ''local'' \<and> \<not> isGlobalClassScope cs"
  then show "Rule parse scope cs (Some p) (CssRule sels body False)
              = Some (CssRule (map (\<lambda>sel. ''['' @ scope @ ''-host] '' @ sel) sels) body True)"
    using assms(1) by (auto simp: Let_def split: option.splits classScope.splits)
next
  assume "\<not> isKeyframe p \<and> getMediaScope p = Some ''global'' \<and> \<not> isGlobalClassScope cs"
  then show "Rule parse scope cs (Some p) (CssRule sels body False) = Some (CssRule sels body True)"
    using assms(1) by (auto simp: Let_def split: option.splits classScope.splits)
next
  assume a: "\<not> isKeyframe p \<and> getMediaScope p = Some m \<and> isGlobalClassScope cs \<and> cs = Some (CSOptions opts)"
  then have "m = ''local'' \<or> m = ''global''"
    by (cases p) (auto dest: bareToken_cases)
  with a show "Rule parse scope cs (Some p) (CssRule sels body False)
              = Some (CssRule
                        (scopeClassNamesInRule parse
                           (if m = ''local'' then map (\<lambda>sel. ''['' @ scope @ ''-host] '' @ sel) sels
                            else sels) opts)
                        body True)"
    using assms(1) by (auto simp: Let_def)
next
  assume "isKeyframe p"
  then show "Rule parse scope cs (Some p) (CssRule sels body False) = Some (CssRule sels body True)"
    using assms(1) by simp
qed


text \<open>Samples for C3: \<open>@media local\<close>, \<open>@media screen and local\<close>, \<open>@media local and screen\<close>.\<close>

theorem boundary_exit_and_rules_witness:
  "''s'' \<noteq> [] \<and> tokenFree ''screen'' \<and> \<not> isSpace (hd ''screen'') \<and> \<not> isSpace (last ''screen'')
   \<and> AtRuleExit ''s'' (Some (CssRoot [])) (CssAtRule ''media'' ''local'' [CssRule [''a''] [] True] False)
       = [CssRule [''a''] [] True]
   \<and> AtRuleExit ''s'' (Some (CssRoot [])) (CssAtRule ''media'' ''screen and local'' [] False)
       = [CssAtRule ''media'' ''screen'' [] True]
   \<and> AtRuleExit ''s'' (Some (CssRoot [])) (CssAtRule ''media'' ''local and screen'' [] False)
       = [CssAtRule ''media'' ''screen'' [] True]
   \<and> Rule parseTag ''s'' None (Some (CssAtRule ''media'' ''local'' [] False)) (CssRule [''a'', ''b''] [] False)
       = Some (CssRule [''[s-host] a'', ''[s-host] b''] [] True)
   \<and> Rule parseTag ''s'' None (Some (CssAtRule ''media'' ''global'' [] False)) (CssRule [''a'', ''b''] [] False)
       = Some (CssRule [''a'', ''b''] [] True)
   \<and> Rule parseTag ''s'' None (Some (CssAtRule ''keyframes'' ''spin'' [] False)) (CssRule [''from''] [] False)
       = Some (CssRule [''from''] [] True)"
proof -
  have h: "''s'' \<noteq> []" "''local'' = ''local'' \<or> ''local'' = ''global''" "tokenFree ''screen''"
    "''screen'' \<noteq> []" "\<not> isSpace (hd ''screen'')" "\<not> isSpace (last ''screen'')"
    by (simp_all add: isSpace_def)
  have l: "\<not> isKeyframe (CssAtRule ''media'' ''local'' [] False)"
    "getMediaScope (CssAtRule ''media'' ''local'' [] False) = Some ''local''"
    "\<not> isKeyframe (CssAtRule ''media'' ''global'' [] False)"
    "getMediaScope (CssAtRule ''media'' ''global'' [] False) = Some ''global''"
    "isKeyframe (CssAtRule ''keyframes'' ''spin'' [] False)"
    "\<not> isGlobalClassScope None"
    by (simp_all add: cssName_def atWordEnd_def isGlobalClassScope_def)
  show ?thesis
    using boundary_exit_and_rules[OF h, of "Some (CssRoot [])" "''media''" "[CssRule [''a''] [] True]"
        "''x''" "''y''" "CssAtRule ''media'' ''local'' [] False" None parseTag "[''a'', ''b'']" "[]"]
      boundary_exit_and_rules[OF h, of "Some (CssRoot [])" "''media''" "[]"
        "''x''" "''y''" "CssAtRule ''media'' ''global'' [] False" None parseTag "[''a'', ''b'']" "[]"]
      boundary_exit_and_rules[OF h, of "Some (CssRoot [])" "''media''" "[]"
        "''x''" "''y''" "CssAtRule ''keyframes'' ''spin'' [] False" None parseTag "[''from'']" "[]"]
      h l
    by simp
qed

text \<open>
  C3 as the specification words it fails in two places.  The rule \<open>from\<close> inside
  \<open>@keyframes local\<close> has a parent tagged \<open>local\<close> and is not prefixed; the rule
  \<open>.a\<close> inside \<open>@media global\<close> does not keep its selectors when class scoping with
  a suffix is set.
\<close>

theorem rules_in_boundary_not_always_prefixed_or_kept:
  "getMediaScope (CssAtRule ''keyframes'' ''local'' [CssRule [''from''] [] False] False) = Some ''local''
   \<and> Rule parseTag ''s'' None
        (Some (CssAtRule ''keyframes'' ''local'' [CssRule [''from''] [] False] False))
        (CssRule [''from''] [] False)
       = Some (CssRule [''from''] [] True)
   \<and> getMediaScope (CssAtRule ''media'' ''global'' [CssRule [''.a''] [] False] False) = Some ''global''
   \<and> Rule parseClass ''s''
        (Some (CSOptions \<lparr>prefix = [], suffix = ''_s'', include_re = None, exclude_re = None, full = False\<rparr>))
        (Some (CssAtRule ''media'' ''global'' [CssRule [''.a''] [] False] False))
        (CssRule [''.a''] [] False)
       = Some (CssRule [''.a_s'', ''.a''] [] True)"
  by (simp add: atWordEnd_def cssName_def isGlobalClassScope_def scopeClassNamesInRule_def
      parseClass_def selector_def mk_def shouldScopeNode_def scopeValue_def set_val_def
      set_nodes_def hasNodes_def)

section \<open>Scoping the ends of a selector\<close>

lemma labels_simps [simp]:
  "labels [] = []" "labels ((Some r, x) # cs) = r # labels cs" "labels ((None, x) # cs) = labels cs"
  "labels (xs @ ys) = labels xs @ labels ys"
  by (simp_all add: labels_def)

lemma labels_fresh [simp]: "labels (map (Pair None) ns) = []"
  by (induction ns) auto

lemma indexOf_None: "r \<notin> set (labels cs) \<Longrightarrow> indexOf cs r = None"
proof (induction cs)
  case Nil
  then show ?case by simp
next
  case (Cons c cs)
  then show ?case by (cases c; cases "fst c") auto
qed

lemma indexOf_split:
  "r \<notin> set (labels A) \<Longrightarrow> indexOf (A @ (Some r, x) # B) r = Some (length A)"
proof (induction A)
  case Nil
  then show ?case by simp
next
  case (Cons c A)
  then show ?case by (cases c; cases "fst c") auto
qed

lemma cells_nth: "cells ns = map (\<lambda>i. (Some i, ns ! i)) [0..<length ns]"
  by (rule nth_equalityI) (simp_all add: cells_def refs_def)

lemma refs_nth: "refs ns = map (\<lambda>i. (i, ns ! i)) [0..<length ns]"
  by (rule nth_equalityI) (simp_all add: refs_def)

lemma cells_snd [simp]: "map snd (cells ns) = ns"
  by (simp add: cells_nth o_def map_nth)

lemma labels_map_Some: "labels (map (\<lambda>i. (Some i, f i)) is) = is"
  by (induction "is") auto

lemma labels_cells [simp]: "labels (cells ns) = [0..<length ns]"
  by (simp add: cells_nth labels_map_Some)

lemma cells_split:
  assumes "i < length ns"
  shows "\<exists>A B. cells ns = A @ (Some i, ns ! i) # B \<and> map snd A = take i ns
           \<and> map snd B = drop (Suc i) ns \<and> labels A = [0..<i] \<and> labels B = [Suc i..<length ns]"
proof -
  let ?f = "\<lambda>i. (Some i, ns ! i)"
  have "[0..<length ns] = [0..<i] @ i # [Suc i..<length ns]"
    using assms by (metis le0 upt_add_eq_append upt_conv_Cons le_add_diff_inverse less_imp_le_nat)
  then have "cells ns = map ?f [0..<i] @ ?f i # map ?f [Suc i..<length ns]"
    by (simp add: cells_nth)
  moreover have "map snd (map ?f [0..<i]) = take i ns"
    using assms by (intro nth_equalityI) auto
  moreover have "map snd (map ?f [Suc i..<length ns]) = drop (Suc i) ns"
    using assms by (intro nth_equalityI) auto
  ultimately have "cells ns = map ?f [0..<i] @ (Some i, ns ! i) # map ?f [Suc i..<length ns]
      \<and> map snd (map ?f [0..<i]) = take i ns
      \<and> map snd (map ?f [Suc i..<length ns]) = drop (Suc i) ns
      \<and> labels (map ?f [0..<i]) = [0..<i]
      \<and> labels (map ?f [Suc i..<length ns]) = [Suc i..<length ns]"
    by (simp add: labels_map_Some)
  then show ?thesis by blast
qed

lemma rewriteSelectorPart_split:
  assumes "r \<notin> set (labels A)"
  shows "\<exists>R. rewriteSelectorPart (A @ (Some r, x) # B) (r, x) scope = A @ R @ B
           \<and> map snd R = scopedPart scope x \<and> set (labels R) \<subseteq> {r}"
proof -
  have i: "indexOf (A @ (Some r, x) # B) r = Some (length A)"
    by (rule indexOf_split[OF assms])
  have j: "indexOf [(Some 0, x)] 0 = Some 0" by simp
  show ?thesis
    unfolding rewriteSelectorPart_def scopedPart_def replaceWith_def insertAfter_def insertBefore_def Let_def
    by (simp add: i o_def)
qed


lemma getCompound_loop_subset: "set (getCompound_loop xs part) \<subseteq> set xs"
  by (induction xs part rule: getCompound_loop.induct) auto

lemma getCompound_loop_sorted:
  "sorted_wrt (<) (map fst xs) \<Longrightarrow> sorted_wrt (<) (map fst (getCompound_loop xs part))"
proof (induction xs part rule: getCompound_loop.induct)
  case (1 part)
  then show ?case by simp
next
  case (2 c cs part)
  have "fst c < fst y" if "y \<in> set (getCompound_loop cs p')" for y p'
    using that getCompound_loop_subset[of cs p'] 2(4) by auto
  with 2 show ?case by auto
qed

lemma refs_sorted: "sorted_wrt (<) (map fst (refs ns))"
  by (simp add: refs_def)

lemma refs_mem: "(i, x) \<in> set (refs ns) \<Longrightarrow> i < length ns \<and> x = ns ! i"
  by (auto simp: refs_nth)

lemma getCompound_sorted: "sorted_wrt (<) (map fst (getCompound sel))"
  unfolding getCompound_def by (rule getCompound_loop_sorted[OF refs_sorted])

lemma getCompound_mem:
  "(i, x) \<in> set (getCompound sel) \<Longrightarrow> i < length (nodes sel) \<and> x = nodes sel ! i"
  unfolding getCompound_def using getCompound_loop_subset refs_mem by blast

lemma sorted_filter_fst:
  "sorted_wrt (<) (map fst xs) \<Longrightarrow> sorted_wrt (<) (map fst (filter P xs))"
  by (induction xs) auto


lemma cells_split2:
  assumes "i < j" and "j < length ns"
  shows "\<exists>A M B. cells ns = A @ (Some i, ns ! i) # M @ (Some j, ns ! j) # B
           \<and> map snd A = take i ns \<and> map snd M = drop (Suc i) (take j ns)
           \<and> map snd B = drop (Suc j) ns
           \<and> labels A = [0..<i] \<and> labels M = [Suc i..<j] \<and> labels B = [Suc j..<length ns]"
proof -
  let ?f = "\<lambda>i. (Some i, ns ! i)"
  have "[0..<length ns] = [0..<j] @ j # [Suc j..<length ns]"
    using assms by (metis le0 upt_add_eq_append upt_conv_Cons le_add_diff_inverse less_imp_le_nat)
  moreover have "[0..<j] = [0..<i] @ i # [Suc i..<j]"
    using assms by (metis le0 upt_add_eq_append upt_conv_Cons le_add_diff_inverse less_imp_le_nat)
  ultimately have "cells ns = map ?f [0..<i] @ ?f i # map ?f [Suc i..<j] @ ?f j # map ?f [Suc j..<length ns]"
    by (simp add: cells_nth)
  moreover have "map snd (map ?f [0..<i]) = take i ns"
    using assms by (intro nth_equalityI) auto
  moreover have "map snd (map ?f [Suc i..<j]) = drop (Suc i) (take j ns)"
    using assms by (intro nth_equalityI) auto
  moreover have "map snd (map ?f [Suc j..<length ns]) = drop (Suc j) ns"
    using assms by (intro nth_equalityI) auto
  ultimately have "cells ns = map ?f [0..<i] @ (Some i, ns ! i) # map ?f [Suc i..<j] @ (Some j, ns ! j)
        # map ?f [Suc j..<length ns]
      \<and> map snd (map ?f [0..<i]) = take i ns
      \<and> map snd (map ?f [Suc i..<j]) = drop (Suc i) (take j ns)
      \<and> map snd (map ?f [Suc j..<length ns]) = drop (Suc j) ns
      \<and> labels (map ?f [0..<i]) = [0..<i]
      \<and> labels (map ?f [Suc i..<j]) = [Suc i..<j]
      \<and> labels (map ?f [Suc j..<length ns]) = [Suc j..<length ns]"
    by (simp add: labels_map_Some)
  then show ?thesis by blast
qed

lemma scopable_mem:
  "(i, x) \<in> set (scopable sel) \<Longrightarrow> i < length (nodes sel) \<and> x = nodes sel ! i"
  unfolding scopable_def using getCompound_mem by auto

lemma scopable_sorted: "sorted_wrt (<) (map fst (scopable sel))"
  unfolding scopable_def by (rule sorted_filter_fst[OF getCompound_sorted])

lemma scopeEnds_none:
  "scopable sel = [] \<Longrightarrow> map snd (scopeEnds sel scope) = nodes sel"
  by (simp add: scopeEnds_def scopable_def)

lemma scopeEnds_one:
  assumes "scopable sel = [(i, x)]"
  shows "map snd (scopeEnds sel scope) =
           take i (nodes sel) @ scopedPart scope x @ drop (Suc i) (nodes sel)"
proof -
  have ix: "i < length (nodes sel)" "x = nodes sel ! i"
    using scopable_mem[of i x sel] assms by auto
  obtain A B where c: "cells (nodes sel) = A @ (Some i, x) # B" "map snd A = take i (nodes sel)"
    "map snd B = drop (Suc i) (nodes sel)" "labels A = [0..<i]"
    using cells_split[OF ix(1)] ix(2) by blast
  then have "i \<notin> set (labels A)" by simp
  from rewriteSelectorPart_split[OF this, of x B scope] obtain R where
    "rewriteSelectorPart (A @ (Some i, x) # B) (i, x) scope = A @ R @ B" "map snd R = scopedPart scope x"
    by blast
  then show ?thesis
    using assms c by (simp add: scopeEnds_def scopable_def[symmetric])
qed

lemma scopeEnds_two:
  assumes "scopable sel = (i, x) # rest" and "rest \<noteq> []" and "last rest = (j, y)"
  shows "i < j \<and> map snd (scopeEnds sel scope) =
           take i (nodes sel) @ scopedPart scope x @ drop (Suc i) (take j (nodes sel))
           @ scopedPart scope y @ drop (Suc j) (nodes sel)"
proof -
  have jr: "(j, y) \<in> set rest" using assms(2,3) last_in_set by metis
  have ij: "i < j"
    using scopable_sorted[of sel] jr unfolding assms(1) by auto
  have ix: "x = nodes sel ! i" and jy: "j < length (nodes sel)" "y = nodes sel ! j"
    using scopable_mem[of i x sel] scopable_mem[of j y sel] jr assms(1) by auto
  obtain A M B where c: "cells (nodes sel) = A @ (Some i, x) # M @ (Some j, y) # B"
    "map snd A = take i (nodes sel)" "map snd M = drop (Suc i) (take j (nodes sel))"
    "map snd B = drop (Suc j) (nodes sel)" "labels A = [0..<i]" "labels M = [Suc i..<j]"
    using cells_split2[OF ij jy(1)] ix jy(2) by blast
  then have "i \<notin> set (labels A)" by simp
  from rewriteSelectorPart_split[OF this, of x "M @ (Some j, y) # B" scope] obtain R where
    R: "rewriteSelectorPart (A @ (Some i, x) # M @ (Some j, y) # B) (i, x) scope = A @ R @ M @ (Some j, y) # B"
    "map snd R = scopedPart scope x" "set (labels R) \<subseteq> {i}"
    by auto
  have "j \<notin> set (labels (A @ R @ M))"
    using c(5,6) R(3) ij by auto
  from rewriteSelectorPart_split[OF this, of y B scope] obtain R' where
    R': "rewriteSelectorPart ((A @ R @ M) @ (Some j, y) # B) (j, y) scope = (A @ R @ M) @ R' @ B"
    "map snd R' = scopedPart scope y"
    by blast
  have "scopeEnds sel scope = (A @ R @ M) @ R' @ B"
    using assms c(1) R(1) R'(1) by (simp add: scopeEnds_def scopable_def[symmetric])
  then show ?thesis
    using ij c R R' by simp
qed


lemma scopedPart_processed: "processed x \<Longrightarrow> scopedPart scope x = [x]"
  by (simp add: scopedPart_def rewriteSelectorPart_def)

lemma scopedPart_element:
  "\<not> processed x \<Longrightarrow> ntype x = TagT \<or> ntype x = UniversalT \<Longrightarrow>
   scopedPart scope x = [set_after x [], set_after (scopeElement scope) (after x)]"
  by (auto simp: scopedPart_def rewriteSelectorPart_def insertAfter_def)

lemma scopedPart_simple:
  "\<not> processed x \<Longrightarrow> ntype x = IdT \<or> ntype x = ClassT \<or> ntype x = AttributeT \<Longrightarrow>
   scopedPart scope x = [set_before (scopeElement scope) (before x), set_before x []]"
  by (auto simp: scopedPart_def rewriteSelectorPart_def insertBefore_def)

lemma scopedPart_host:
  "\<not> processed x \<Longrightarrow> ntype x = PseudoT \<Longrightarrow> val x = '':host'' \<Longrightarrow>
   scopedPart scope x = scopeHost scope # nodes x"
  by (simp add: scopedPart_def rewriteSelectorPart_def replaceWith_def o_def)

lemma scopedPart_host_context:
  "\<not> processed x \<Longrightarrow> ntype x = PseudoT \<Longrightarrow> val x = '':host-context'' \<Longrightarrow>
   scopedPart scope x = nodes x @ [mk StringT '' '', scopeHost scope]"
  by (simp add: scopedPart_def rewriteSelectorPart_def replaceWith_def o_def)

lemma scopedPart_other:
  "ntype x = PseudoT \<Longrightarrow> val x \<noteq> '':host'' \<Longrightarrow> val x \<noteq> '':host-context'' \<Longrightarrow>
   scopedPart scope x = [x]"
  "ntype x = CombinatorT \<or> ntype x = StringT \<or> ntype x = CommentT \<or> ntype x = NestingT
     \<or> ntype x = SelectorT \<Longrightarrow> scopedPart scope x = [x]"
  by (auto simp: scopedPart_def rewriteSelectorPart_def)

lemma rewriteSelector_plain:
  "filter isLocalGlobal (getCompound sel) = [] \<Longrightarrow>
   rewriteSelector sel scope = Some (set_nodes sel (map snd (scopeEnds sel scope)), None)"
  by (simp add: rewriteSelector_def Let_def)

lemma handleSelector_not_slotted:
  assumes "\<not> (\<exists>p rest. nodes sel = p # rest \<and> ntype p = PseudoT \<and> val p = ''::slotted'')"
  shows "handleSelector scope sel = rewriteSelector (rewriteRefs sel scope) scope"
proof -
  have "rewriteSlotted (rewriteRefs sel scope) scope = (rewriteRefs sel scope, False)"
    using assms rewriteRefs_nodes_first[of "nodes sel" scope]
    by (auto simp: rewriteSlotted_def rewriteRefs_def split: list.splits)
  then show ?thesis by (simp add: handleSelector_def)
qed

text \<open>
  C2.  Let \<open>scopable\<close> be the compound representatives of the selector without the
  \<open>::global\<close> and \<open>::local\<close> ones, the first of them the node \<open>x\<close> at position
  \<open>i\<close>.  After the scoping of the ends the selector is the old one with \<open>x\<close>
  replaced by \<open>scopedPart scope x\<close> and, when there is more than one representative,
  the last one replaced likewise; every node before, between and behind them is
  unchanged.  For a tag or universal node without the mark, \<open>scopedPart\<close> is the node
  and then the scope attribute (which takes over the white space after the node); for
  a class, id or attribute node it is the scope attribute (which takes over the white
  space before the node) and then the node.  Without \<open>::global\<close> and \<open>::local\<close>
  parts this selector is the result of \<open>rewriteSelector\<close>.
\<close>

theorem ends_scoped:
  assumes "scopable sel = (i, x) # rest"
  shows "i < length (nodes sel) \<and> x = nodes sel ! i
    \<and> (rest = [] \<longrightarrow>
          map snd (scopeEnds sel scope)
            = take i (nodes sel) @ scopedPart scope x @ drop (Suc i) (nodes sel))
    \<and> (rest \<noteq> [] \<longrightarrow>
          i < fst (last rest) \<and> snd (last rest) = nodes sel ! fst (last rest)
          \<and> map snd (scopeEnds sel scope)
            = take i (nodes sel) @ scopedPart scope x
              @ drop (Suc i) (take (fst (last rest)) (nodes sel))
              @ scopedPart scope (snd (last rest)) @ drop (Suc (fst (last rest))) (nodes sel))
    \<and> (\<not> processed n \<and> (ntype n = TagT \<or> ntype n = UniversalT) \<longrightarrow>
          scopedPart scope n = [set_after n [], set_after (scopeElement scope) (after n)])
    \<and> (\<not> processed n \<and> (ntype n = ClassT \<or> ntype n = IdT \<or> ntype n = AttributeT) \<longrightarrow>
          scopedPart scope n = [set_before (scopeElement scope) (before n), set_before n []])
    \<and> (filter isLocalGlobal (getCompound sel) = [] \<longrightarrow>
          rewriteSelector sel scope = Some (set_nodes sel (map snd (scopeEnds sel scope)), None))"
proof (intro conjI impI)
  show "i < length (nodes sel)" "x = nodes sel ! i"
    using scopable_mem[of i x sel] assms by auto
next
  assume "rest = []"
  then show "map snd (scopeEnds sel scope)
            = take i (nodes sel) @ scopedPart scope x @ drop (Suc i) (nodes sel)"
    using scopeEnds_one assms by simp
next
  assume r: "rest \<noteq> []"
  obtain j y where l: "last rest = (j, y)" by (cases "last rest")
  then have "(j, y) \<in> set (scopable sel)"
    using r assms last_in_set[of rest] by auto
  then show "snd (last rest) = nodes sel ! fst (last rest)"
    using scopable_mem l by auto
  show "i < fst (last rest)"
    using scopeEnds_two[OF assms r l] l by simp
  show "map snd (scopeEnds sel scope)
            = take i (nodes sel) @ scopedPart scope x
              @ drop (Suc i) (take (fst (last rest)) (nodes sel))
              @ scopedPart scope (snd (last rest)) @ drop (Suc (fst (last rest))) (nodes sel)"
    using scopeEnds_two[OF assms r l] l by simp
next
  assume "\<not> processed n \<and> (ntype n = TagT \<or> ntype n = UniversalT)"
  then show "scopedPart scope n = [set_after n [], set_after (scopeElement scope) (after n)]"
    using scopedPart_element by blast
next
  assume "\<not> processed n \<and> (ntype n = ClassT \<or> ntype n = IdT \<or> ntype n = AttributeT)"
  then show "scopedPart scope n = [set_before (scopeElement scope) (before n), set_before n []]"
    using scopedPart_simple by blast
next
  assume "filter isLocalGlobal (getCompound sel) = []"
  then show "rewriteSelector sel scope = Some (set_nodes sel (map snd (scopeEnds sel scope)), None)"
    by (rule rewriteSelector_plain)
qed

lemma sample_abc:
  "scopable (selector [mk ClassT ''a'', descendant, mk ClassT ''b'', childOf, mk ClassT ''c''])
     = [(0, mk ClassT ''a''), (2, mk ClassT ''b''), (4, mk ClassT ''c'')]"
  by (simp add: scopable_def getCompound_def refs_def selector_def mk_def descendant_def childOf_def
      isCompoundBoundary_def isLocalGlobal_def upt_rec)


text \<open>The samples for C2: \<open>.a .b > .c\<close>, \<open>div\<close> and \<open>.foo\<close> with the scope \<open>s\<close>.\<close>

theorem ends_scoped_witness:
  "scopable (selector [mk ClassT ''a'', descendant, mk ClassT ''b'', childOf, mk ClassT ''c''])
     = [(0, mk ClassT ''a''), (2, mk ClassT ''b''), (4, mk ClassT ''c'')]
   \<and> map snd (scopeEnds (selector [mk ClassT ''a'', descendant, mk ClassT ''b'', childOf, mk ClassT ''c'']) ''s'')
     = [mk AttributeT ''s'', mk ClassT ''a'', descendant, mk ClassT ''b'', childOf,
        mk AttributeT ''s'', mk ClassT ''c'']
   \<and> map_option (map toString)
       (inRoot (handleSelector ''s''
          (selector [mk ClassT ''a'', descendant, mk ClassT ''b'', childOf, mk ClassT ''c''])))
     = Some [''[s].a .b > [s].c'']
   \<and> map_option (map toString) (inRoot (handleSelector ''s'' (selector [mk TagT ''div''])))
     = Some [''div[s]'']
   \<and> map_option (map toString) (inRoot (handleSelector ''s'' (selector [mk ClassT ''foo''])))
     = Some [''[s].foo'']"
proof -
  let ?sel = "selector [mk ClassT ''a'', descendant, mk ClassT ''b'', childOf, mk ClassT ''c'']"
  have lg: "filter isLocalGlobal (getCompound ?sel) = []"
    by (simp add: getCompound_def refs_def selector_def mk_def descendant_def childOf_def
        isCompoundBoundary_def isLocalGlobal_def upt_rec)
  have c: "\<not> processed (mk ClassT ''a'')" "ntype (mk ClassT ''a'') = ClassT"
    "\<not> processed (mk ClassT ''c'')" "ntype (mk ClassT ''c'') = ClassT"
    by (simp_all add: mk_def)
  have ends: "map snd (scopeEnds ?sel ''s'')
     = [mk AttributeT ''s'', mk ClassT ''a'', descendant, mk ClassT ''b'', childOf,
        mk AttributeT ''s'', mk ClassT ''c'']"
    using ends_scoped[OF sample_abc, of "''s''" "mk ClassT ''a''"]
      ends_scoped[OF sample_abc, of "''s''" "mk ClassT ''c''"] c
    by (simp add: selector_def scopeElement_def set_before_def mk_def)
  have refs: "rewriteRefs ?sel ''s'' = ?sel"
    by (simp add: rewriteRefs_def selector_def mk_def descendant_def childOf_def set_nodes_def)
  have "handleSelector ''s'' ?sel = rewriteSelector ?sel ''s''"
    using handleSelector_not_slotted[of ?sel "''s''"] refs
    by (simp add: selector_def mk_def)
  also have "\<dots> = Some (set_nodes ?sel (map snd (scopeEnds ?sel ''s'')), None)"
    using ends_scoped[OF sample_abc, of "''s''"] lg by blast
  finally have "map_option (map toString) (inRoot (handleSelector ''s'' ?sel)) = Some [''[s].a .b > [s].c'']"
    unfolding ends
    by (simp add: inRoot_def selector_def mk_def descendant_def childOf_def set_nodes_def)
  moreover have "map_option (map toString) (inRoot (handleSelector ''s'' (selector [mk TagT ''div''])))
     = Some [''div[s]'']"
    by (simp add: inRoot_def handleSelector_def rewriteRefs_def rewriteSlotted_def rewriteSelector_def
        scopeEnds_def getCompound_def refs_def cells_def selector_def mk_def set_nodes_def
        isCompoundBoundary_def isLocalGlobal_def rewriteSelectorPart_def insertAfter_def
        scopeElement_def set_after_def)
  moreover have "map_option (map toString) (inRoot (handleSelector ''s'' (selector [mk ClassT ''foo''])))
     = Some [''[s].foo'']"
    by (simp add: inRoot_def handleSelector_def rewriteRefs_def rewriteSlotted_def rewriteSelector_def
        scopeEnds_def getCompound_def refs_def cells_def selector_def mk_def set_nodes_def
        isCompoundBoundary_def isLocalGlobal_def rewriteSelectorPart_def insertBefore_def
        scopeElement_def set_before_def)
  ultimately show ?thesis
    using sample_abc ends by blast
qed

text \<open>
  C6.  For a node without the mark, \<open>scopedPart\<close> of the pseudo \<open>:host\<close> is the
  scope-host attribute followed by the nodes inside the pseudo, and \<open>scopedPart\<close> of
  the pseudo \<open>:host-context\<close> is the nodes inside the pseudo, a space string and the
  scope-host attribute; a node with the mark stays.  These nodes stand in the place
  of the first and of the last scopable representative of the selector.
\<close>

theorem host_parts:
  assumes "scopable sel = (i, x) # rest"
  shows "(\<not> processed n \<and> ntype n = PseudoT \<and> val n = '':host'' \<longrightarrow>
            scopedPart scope n = scopeHost scope # nodes n)
    \<and> (\<not> processed n \<and> ntype n = PseudoT \<and> val n = '':host-context'' \<longrightarrow>
            scopedPart scope n = nodes n @ [mk StringT '' '', scopeHost scope])
    \<and> (processed n \<longrightarrow> scopedPart scope n = [n])
    \<and> x = nodes sel ! i
    \<and> (rest = [] \<longrightarrow>
          map snd (scopeEnds sel scope)
            = take i (nodes sel) @ scopedPart scope x @ drop (Suc i) (nodes sel))
    \<and> (rest \<noteq> [] \<longrightarrow>
          snd (last rest) = nodes sel ! fst (last rest)
          \<and> map snd (scopeEnds sel scope)
            = take i (nodes sel) @ scopedPart scope x
              @ drop (Suc i) (take (fst (last rest)) (nodes sel))
              @ scopedPart scope (snd (last rest)) @ drop (Suc (fst (last rest))) (nodes sel))"
proof (intro conjI impI)
  assume "\<not> processed n \<and> ntype n = PseudoT \<and> val n = '':host''"
  then show "scopedPart scope n = scopeHost scope # nodes n"
    using scopedPart_host by blast
next
  assume "\<not> processed n \<and> ntype n = PseudoT \<and> val n = '':host-context''"
  then show "scopedPart scope n = nodes n @ [mk StringT '' '', scopeHost scope]"
    using scopedPart_host_context by blast
next
  assume "processed n"
  then show "scopedPart scope n = [n]" by (rule scopedPart_processed)
next
  show "x = nodes sel ! i"
    using scopable_mem[of i x sel] assms by auto
next
  assume "rest = []"
  then show "map snd (scopeEnds sel scope)
            = take i (nodes sel) @ scopedPart scope x @ drop (Suc i) (nodes sel)"
    using scopeEnds_one assms by simp
next
  assume r: "rest \<noteq> []"
  obtain j y where l: "last rest = (j, y)" by (cases "last rest")
  then have "(j, y) \<in> set (scopable sel)"
    using r assms last_in_set[of rest] by auto
  then show "snd (last rest) = nodes sel ! fst (last rest)"
    using scopable_mem l by auto
  show "map snd (scopeEnds sel scope)
            = take i (nodes sel) @ scopedPart scope x
              @ drop (Suc i) (take (fst (last rest)) (nodes sel))
              @ scopedPart scope (snd (last rest)) @ drop (Suc (fst (last rest))) (nodes sel)"
    using scopeEnds_two[OF assms r l] l by simp
qed

lemma sample_host:
  "scopable (selector [pseudo '':host'' []]) = [(0, pseudo '':host'' [])]"
  "scopable (selector [pseudo '':host-context'' [selector [mk ClassT ''a'']]])
     = [(0, pseudo '':host-context'' [selector [mk ClassT ''a'']])]"
  by (simp_all add: scopable_def getCompound_def refs_def selector_def pseudo_def
      isCompoundBoundary_def isLocalGlobal_def)

text \<open>The samples for C6: \<open>:host\<close> and \<open>:host-context(.a)\<close> with the scope \<open>s\<close>.\<close>

theorem host_parts_witness:
  "scopable (selector [pseudo '':host'' []]) = [(0, pseudo '':host'' [])]
   \<and> map snd (scopeEnds (selector [pseudo '':host'' []]) ''s'') = [mk AttributeT ''s-host'']
   \<and> map snd (scopeEnds (selector [pseudo '':host-context'' [selector [mk ClassT ''a'']]]) ''s'')
       = [selector [mk ClassT ''a''], mk StringT '' '', mk AttributeT ''s-host'']
   \<and> map_option (map toString) (inRoot (handleSelector ''s'' (selector [pseudo '':host'' []])))
       = Some [''[s-host]'']
   \<and> map_option (map toString)
        (inRoot (handleSelector ''s'' (selector [pseudo '':host-context'' [selector [mk ClassT ''a'']]])))
       = Some [''.a [s-host]'']"
proof -
  let ?h = "pseudo '':host'' []"
  let ?c = "pseudo '':host-context'' [selector [mk ClassT ''a'']]"
  have p: "\<not> processed ?h" "ntype ?h = PseudoT" "val ?h = '':host''" "nodes ?h = []"
    "\<not> processed ?c" "ntype ?c = PseudoT" "val ?c = '':host-context''"
    "nodes ?c = [selector [mk ClassT ''a'']]"
    by (simp_all add: pseudo_def)
  have h: "map snd (scopeEnds (selector [?h]) ''s'') = [mk AttributeT ''s-host'']"
    using host_parts[OF sample_host(1), of ?h "''s''"] p
    by (simp add: scopeHost_def selector_def)
  have c: "map snd (scopeEnds (selector [?c]) ''s'')
       = [selector [mk ClassT ''a''], mk StringT '' '', mk AttributeT ''s-host'']"
    using host_parts[OF sample_host(2), of ?c "''s''"] p
    by (simp add: scopeHost_def selector_def)
  have lg: "filter isLocalGlobal (getCompound (selector [?h])) = []"
    "filter isLocalGlobal (getCompound (selector [?c])) = []"
    by (simp_all add: getCompound_def refs_def selector_def pseudo_def
        isCompoundBoundary_def isLocalGlobal_def)
  have r: "rewriteRefs (selector [?h]) ''s'' = selector [?h]"
    "rewriteRefs (selector [?c]) ''s'' = selector [?c]"
    by (simp_all add: rewriteRefs_def selector_def pseudo_def mk_def set_nodes_def)
  have "handleSelector ''s'' (selector [?h]) = rewriteSelector (selector [?h]) ''s''"
    using handleSelector_not_slotted[of "selector [?h]" "''s''"] r
    by (simp add: selector_def pseudo_def)
  then have "map_option (map toString) (inRoot (handleSelector ''s'' (selector [?h]))) = Some [''[s-host]'']"
    using rewriteSelector_plain[OF lg(1), of "''s''"] h
    by (simp add: inRoot_def selector_def mk_def set_nodes_def)
  moreover have "handleSelector ''s'' (selector [?c]) = rewriteSelector (selector [?c]) ''s''"
    using handleSelector_not_slotted[of "selector [?c]" "''s''"] r
    by (simp add: selector_def pseudo_def)
  then have "map_option (map toString) (inRoot (handleSelector ''s'' (selector [?c]))) = Some [''.a [s-host]'']"
    using rewriteSelector_plain[OF lg(2), of "''s''"] c
    by (simp add: inRoot_def selector_def mk_def set_nodes_def)
  ultimately show ?thesis
    using sample_host(1) h c by blast
qed

section \<open>Exhaustive class scoping\<close>

lemma clone_fields [simp]:
  "ntype (clone n) = ntype n" "val (clone n) = val n" "nodes (clone n) = map clone (nodes n)"
  "processed (clone n) = False" "before (clone n) = before n" "after (clone n) = after n"
  by (cases n; simp)+

lemma clone_idem [simp]: "clone (clone n) = clone n"
proof (induction n)
  case (Node t v ns p b a)
  then show ?case by (simp add: map_idI)
qed

lemma clone_set_nodes: "clone (set_nodes n ns) = set_nodes (clone n) (map clone ns)"
  by (cases n) (simp add: set_nodes_def)

lemma shouldScopeNode_clone [simp]: "shouldScopeNode (clone n) opts = shouldScopeNode n opts"
  by (simp add: shouldScopeNode_def split: option.splits)

lemma clone_scopeValue: "clone (scopeValue n opts) = scopeValue (clone n) opts"
  by (cases n) (auto simp: scopeValue_def set_val_def shouldScopeNode_def split: option.splits)

lemma decoratedNodes_length [simp]: "length (decoratedNodes ns opts S) = length ns"
  by (simp add: decoratedNodes_def refs_def)

lemma decoratedNodes_nth:
  "i < length ns \<Longrightarrow>
   decoratedNodes ns opts S ! i =
     (if i \<in> set S then scopeValue (clone (ns ! i)) opts else clone (ns ! i))"
  by (simp add: decoratedNodes_def refs_def)

lemma decoratedNodes_clone: "map clone (decoratedNodes ns opts S) = decoratedNodes ns opts S"
  by (rule nth_equalityI) (simp_all add: decoratedNodes_nth clone_scopeValue)

lemma decoratedNodes_empty: "decoratedNodes ns opts [] = map clone ns"
  by (rule nth_equalityI) (simp_all add: decoratedNodes_nth)

lemma clone_decorated:
  "clone (decorated sel opts S) = set_nodes (clone sel) (decoratedNodes (nodes sel) opts S)"
proof (cases "S = []")
  case True
  then show ?thesis
    by (cases sel) (simp add: decorated_def decoratedNodes_empty set_nodes_def)
next
  case False
  then show ?thesis
    by (simp add: decorated_def clone_set_nodes decoratedNodes_clone)
qed

lemma scopeAt_decorated:
  assumes "m < length (nodes sel)" and "m \<notin> set S"
  shows "scopeAt (clone (decorated sel opts S)) m opts = decorated sel opts (S @ [m])"
proof -
  let ?ns = "nodes sel"
  have "(decoratedNodes ?ns opts S)[m := scopeValue (decoratedNodes ?ns opts S ! m) opts]
        = decoratedNodes ?ns opts (S @ [m])"
    using assms by (intro nth_equalityI) (auto simp: decoratedNodes_nth nth_list_update)
  then have "scopeAt (clone (decorated sel opts S)) m opts
        = set_nodes (clone sel) (decoratedNodes ?ns opts (S @ [m]))"
    unfolding scopeAt_def clone_decorated by simp
  then show ?thesis
    by (simp add: decorated_def)
qed

lemma variantSets_snoc:
  "variantSets (qs @ [q]) = variantSets qs @ map (\<lambda>S. S @ [q]) (variantSets qs)"
  by (simp add: variantSets_def)

lemma variantSets_subset: "S \<in> set (variantSets qs) \<Longrightarrow> set S \<subseteq> set qs"
proof (induction qs arbitrary: S rule: rev_induct)
  case Nil
  then show ?case by (simp add: variantSets_def)
next
  case (snoc q qs)
  from snoc.prems have "S \<in> set (variantSets qs) \<or> (\<exists>S'. S' \<in> set (variantSets qs) \<and> S = S' @ [q])"
    by (auto simp: variantSets_snoc)
  then show ?case using snoc.IH by fastforce
qed

lemma length_variantSets: "length (variantSets qs) = 2 ^ length qs"
  by (induction qs rule: rev_induct) (simp_all add: variantSets_snoc variantSets_def)

lemma variantSets_hd: "variantSets qs \<noteq> [] \<and> hd (variantSets qs) = []"
  by (induction qs rule: rev_induct) (simp_all add: variantSets_snoc variantSets_def)


lemma refs_nth': "i < length ns \<Longrightarrow> refs ns ! i = (i, ns ! i)"
  by (simp add: refs_def)

lemma refs_Nil [simp]: "refs [] = []"
  by (simp add: refs_def)

lemma refs_length [simp]: "length (refs ns) = length ns"
  by (simp add: refs_def)

lemma refs_take_fst: "c \<in> set (take m (refs ns)) \<Longrightarrow> fst c < m"
  by (auto simp: in_set_conv_nth refs_def)

lemma exhaustive_fold:
  assumes nn: "noNestedLists sel" and m: "m \<le> length (nodes sel)"
  shows "fold
           (\<lambda>(i, n) toUpdate.
              if shouldScopeNode n opts then
                toUpdate @ map (\<lambda>sel. scopeAt (clone sel) i opts) toUpdate
              else if ntype n = PseudoT then
                fold
                  (\<lambda>(j, pseudoSel) toUpdate.
                     toUpdate @
                     concat (map (\<lambda>sel. pushVariants sel i j
                                    (scopeClassNamesInContainer pseudoSel opts)) toUpdate))
                  (refs (nodes n)) toUpdate
              else toUpdate)
           (take m (refs (nodes sel))) [sel]
         = map (decorated sel opts)
             (variantSets (map fst (filter (\<lambda>c. shouldScopeNode (snd c) opts) (take m (refs (nodes sel))))))"
  using m
proof (induction m)
  case 0
  then show ?case by (simp add: variantSets_def decorated_def)
next
  case (Suc m)
  let ?ns = "nodes sel"
  let ?Q = "map fst (filter (\<lambda>c. shouldScopeNode (snd c) opts) (take m (refs ?ns)))"
  have lt: "m < length ?ns" using Suc.prems by simp
  have tk: "take (Suc m) (refs ?ns) = take m (refs ?ns) @ [(m, ?ns ! m)]"
    using lt by (simp add: take_Suc_conv_app_nth refs_nth')
  have IH: "fold
           (\<lambda>(i, n) toUpdate.
              if shouldScopeNode n opts then
                toUpdate @ map (\<lambda>sel. scopeAt (clone sel) i opts) toUpdate
              else if ntype n = PseudoT then
                fold
                  (\<lambda>(j, pseudoSel) toUpdate.
                     toUpdate @
                     concat (map (\<lambda>sel. pushVariants sel i j
                                    (scopeClassNamesInContainer pseudoSel opts)) toUpdate))
                  (refs (nodes n)) toUpdate
              else toUpdate)
           (take m (refs ?ns)) [sel]
         = map (decorated sel opts) (variantSets ?Q)"
    using Suc by simp
  show ?case
  proof (cases "shouldScopeNode (?ns ! m) opts")
    case True
    have "scopeAt (clone (decorated sel opts S)) m opts = decorated sel opts (S @ [m])"
      if "S \<in> set (variantSets ?Q)" for S
    proof -
      have "set S \<subseteq> set ?Q" using that by (rule variantSets_subset)
      then have "m \<notin> set S" using refs_take_fst[of _ m ?ns] by fastforce
      then show ?thesis using scopeAt_decorated[OF lt] by simp
    qed
    then have "map (\<lambda>v. scopeAt (clone v) m opts) (map (decorated sel opts) (variantSets ?Q))
        = map (decorated sel opts) (map (\<lambda>S. S @ [m]) (variantSets ?Q))"
      by simp
    then show ?thesis
      using True unfolding tk by (simp add: IH variantSets_snoc del: map_map)
  next
    case False
    have "nodes (?ns ! m) = []" if "ntype (?ns ! m) = PseudoT"
      using nn lt that unfolding noNestedLists_def list_all_iff by auto
    then show ?thesis
      using False unfolding tk by (cases "ntype (?ns ! m) = PseudoT") (simp_all add: IH)
  qed
qed

lemma exhaustive_all:
  assumes "full opts" and "noNestedLists sel"
  shows "sel # scopeClassNamesInContainer sel opts
         = map (decorated sel opts) (variantSets (qualifying sel opts))"
proof -
  let ?T = "map (decorated sel opts) (variantSets (qualifying sel opts))"
  have "scopeClassNamesInContainer sel opts = tl ?T"
    using exhaustive_fold[OF assms(2) order_refl, of opts] assms(1)
    by (subst scopeClassNamesInContainer.simps) (simp add: qualifying_def)
  moreover have "?T \<noteq> []" "hd ?T = sel"
    using variantSets_hd[of "qualifying sel opts"]
    by (simp_all add: hd_map decorated_def)
  ultimately show ?thesis
    by (metis list.collapse)
qed


lemma variantSets_Pow: "set ` set (variantSets qs) = Pow (set qs)"
proof (induction qs rule: rev_induct)
  case Nil
  then show ?case by (simp add: variantSets_def)
next
  case (snoc q qs)
  have "set ` set (variantSets (qs @ [q]))
        = set ` set (variantSets qs) \<union> insert q ` (set ` set (variantSets qs))"
    by (auto simp: variantSets_snoc image_Un image_image)
  then show ?case
    by (simp add: snoc Pow_insert Un_commute)
qed

lemma variantSets_distinct: "distinct qs \<Longrightarrow> distinct (map set (variantSets qs))"
proof (induction qs rule: rev_induct)
  case Nil
  then show ?case by (simp add: variantSets_def)
next
  case (snoc q qs)
  then have q: "q \<notin> set qs" and d: "distinct (map set (variantSets qs))" by auto
  have inj: "inj_on (insert q) (set ` set (variantSets qs))"
  proof (rule inj_onI)
    fix A B
    assume "A \<in> set ` set (variantSets qs)" "B \<in> set ` set (variantSets qs)" "insert q A = insert q B"
    moreover from this have "q \<notin> A" "q \<notin> B"
      using q variantSets_subset by fastforce+
    ultimately show "A = B" by (metis insert_ident)
  qed
  have "distinct (map (insert q) (map set (variantSets qs)))"
    using d inj by (subst distinct_map) simp
  moreover have "set (map set (variantSets qs)) \<inter> set (map (insert q) (map set (variantSets qs))) = {}"
    using q variantSets_subset by fastforce
  ultimately show ?case
    using d by (simp add: variantSets_snoc o_def)
qed

lemma qualifying_distinct: "distinct (qualifying sel opts)"
proof -
  have "distinct (map fst (refs (nodes sel)))" by (simp add: refs_def)
  then show ?thesis
    unfolding qualifying_def by (rule distinct_map_filter)
qed

lemma getClassScopeOptions_set:
  "prefix opts \<noteq> [] \<or> suffix opts \<noteq> [] \<Longrightarrow> getClassScopeOptions scope (CSOptions opts) = opts"
  by (auto simp: getClassScopeOptions_def)

text \<open>
  C9.  In the exhaustive mode, for a selector whose pseudos hold no selectors and
  whose classes to scope stand at \<open>k\<close> positions, the selector together with the
  list that \<open>scopeClassNamesInContainer\<close> returns is the list of the variants for the
  sets of these positions: each subset once, the empty set (the selector itself)
  first.  These are \<open>2 ^ k\<close> selectors, of which \<open>2 ^ k - 1\<close> are returned; the
  selector processor handles the returned ones, puts them before the selector and
  then handles the selector itself.
\<close>

theorem exhaustive_variants:
  assumes "full opts" and "noNestedLists sel" and "prefix opts \<noteq> [] \<or> suffix opts \<noteq> []"
  shows "sel # scopeClassNamesInContainer sel opts
           = map (decorated sel opts) (variantSets (qualifying sel opts))
    \<and> set ` set (variantSets (qualifying sel opts)) = Pow (set (qualifying sel opts))
    \<and> distinct (map set (variantSets (qualifying sel opts)))
    \<and> length (sel # scopeClassNamesInContainer sel opts) = 2 ^ length (qualifying sel opts)
    \<and> length (scopeClassNamesInContainer sel opts) = 2 ^ length (qualifying sel opts) - 1
    \<and> processSelector scope (Some (CSOptions opts)) sel
        = (case handleCopies scope (scopeClassNamesInContainer sel opts) of
             None \<Rightarrow> None
           | Some copies \<Rightarrow> map_option (append copies) (inRoot (handleSelector scope sel)))"
proof -
  have all: "sel # scopeClassNamesInContainer sel opts
           = map (decorated sel opts) (variantSets (qualifying sel opts))"
    by (rule exhaustive_all[OF assms(1,2)])
  then have len: "length (sel # scopeClassNamesInContainer sel opts) = 2 ^ length (qualifying sel opts)"
    by (simp add: length_variantSets)
  then have len': "length (scopeClassNamesInContainer sel opts) = 2 ^ length (qualifying sel opts) - 1"
    by simp
  have "processSelector scope (Some (CSOptions opts)) sel
        = (case handleCopies scope (scopeClassNamesInContainer sel opts) of
             None \<Rightarrow> None
           | Some copies \<Rightarrow> map_option (append copies) (inRoot (handleSelector scope sel)))"
    using assms(3) getClassScopeOptions_set[OF assms(3)]
    by (auto simp: processSelector_def enabled_def isGlobalClassScope_def Let_def)
  then show ?thesis
    using all len len' variantSets_Pow variantSets_distinct[OF qualifying_distinct] by blast
qed

text \<open>
  The sample for C9: \<open>.foo.bar\<close> with the suffix \<open>_s\<close> and the scope \<open>s\<close>.
\<close>

theorem exhaustive_variants_witness:
  "full \<lparr>prefix = [], suffix = ''_s'', include_re = None, exclude_re = None, full = True\<rparr>
   \<and> noNestedLists (selector [mk ClassT ''foo'', mk ClassT ''bar''])
   \<and> qualifying (selector [mk ClassT ''foo'', mk ClassT ''bar''])
        \<lparr>prefix = [], suffix = ''_s'', include_re = None, exclude_re = None, full = True\<rparr> = [0, 1]
   \<and> length (scopeClassNamesInContainer (selector [mk ClassT ''foo'', mk ClassT ''bar''])
        \<lparr>prefix = [], suffix = ''_s'', include_re = None, exclude_re = None, full = True\<rparr>) = 3
   \<and> map_option (map toString)
        (processRoot ''s''
           (Some (CSOptions \<lparr>prefix = [], suffix = ''_s'', include_re = None, exclude_re = None, full = True\<rparr>))
           [selector [mk ClassT ''foo'', mk ClassT ''bar'']])
       = Some [''[s].foo_s.bar'', ''[s].foo.bar_s'', ''[s].foo_s.bar_s'', ''[s].foo.bar'']
   \<and> distinct [''[s].foo_s.bar'', ''[s].foo.bar_s'', ''[s].foo_s.bar_s'', ''[s].foo.bar'']"
proof -
  let ?o = "\<lparr>prefix = [], suffix = ''_s'', include_re = None, exclude_re = None, full = True\<rparr>"
  let ?sel = "selector [mk ClassT ''foo'', mk ClassT ''bar'']"
  have h: "full ?o" "noNestedLists ?sel" "prefix ?o \<noteq> [] \<or> suffix ?o \<noteq> []"
    by (simp_all add: noNestedLists_def selector_def mk_def)
  have q: "qualifying ?sel ?o = [0, 1]"
    by (simp add: qualifying_def refs_def selector_def mk_def shouldScopeNode_def upt_rec)
  have l: "length (scopeClassNamesInContainer ?sel ?o) = 3"
    using exhaustive_variants[OF h, of "''s''"] q by simp
  have out: "map_option (map toString) (processRoot ''s'' (Some (CSOptions ?o)) [?sel])
       = Some [''[s].foo_s.bar'', ''[s].foo.bar_s'', ''[s].foo_s.bar_s'', ''[s].foo.bar'']"
    by (simp add: processSelector_def enabled_def isGlobalClassScope_def getClassScopeOptions_def
        selector_def mk_def refs_def upt_rec shouldScopeNode_def scopeAt_def scopeValue_def
        set_val_def set_nodes_def handleSelector_def rewriteRefs_def rewriteSlotted_def
        rewriteSelector_def scopeEnds_def getCompound_def cells_def isCompoundBoundary_def
        isLocalGlobal_def rewriteSelectorPart_def insertBefore_def scopeElement_def set_before_def
        inRoot_def)
  show ?thesis
    using h(1,2) q l out by simp
qed

section \<open>The expansion of global and local parts\<close>

lemma innerReplacements_ok:
  assumes "val part = ''::global'' \<or> val part = ''::local''" and "ix < length (nodes r)"
  shows "innerReplacements scope part ix r kids =
           Some (map (\<lambda>childSel. set_nodes (clone r)
                   (take ix (nodes (clone r)) @ fragment scope part childSel
                    @ drop (Suc ix) (nodes (clone r)))) kids)"
  using assms by (induction kids) (auto simp: replaceAt_def)

lemma spliceLoop_ok:
  assumes "val part = ''::global'' \<or> val part = ''::local''"
    and "list_all (\<lambda>r. ix < length (nodes r)) (take n reps)" and "n \<le> length reps"
  shows "spliceLoop scope part ix n reps =
           Some (concat (map (variantsAt scope part ix) (take n reps)) @ drop n reps)"
  using assms(2,3)
proof (induction n arbitrary: reps)
  case 0
  then show ?case by simp
next
  case (Suc n)
  have n: "n < length reps" using Suc.prems by simp
  then have r: "ix < length (nodes (reps ! n))"
    using Suc.prems(1) by (simp add: list_all_length)
  let ?inner = "variantsAt scope part ix (reps ! n)"
  let ?reps' = "take n reps @ ?inner @ drop (Suc n) reps"
  have inner: "innerReplacements scope part ix (reps ! n) (nodes part) = Some ?inner"
    using innerReplacements_ok[OF assms(1) r] by (simp add: variantsAt_def)
  have tk: "take n ?reps' = take n reps" using n by simp
  have dr: "drop n ?reps' = ?inner @ drop (Suc n) reps" using n by simp
  have "list_all (\<lambda>r. ix < length (nodes r)) (take n ?reps')"
    unfolding tk using Suc.prems n by (simp add: list_all_length)
  moreover have "n \<le> length ?reps'" using n by simp
  ultimately have "spliceLoop scope part ix n ?reps' =
      Some (concat (map (variantsAt scope part ix) (take n ?reps')) @ drop n ?reps')"
    by (rule Suc.IH)
  then have IH': "spliceLoop scope part ix n ?reps' =
      Some (concat (map (variantsAt scope part ix) (take n reps)) @ ?inner @ drop (Suc n) reps)"
    unfolding tk dr .
  have "spliceLoop scope part ix (Suc n) reps = spliceLoop scope part ix n ?reps'"
    using inner by simp
  then show ?case
    unfolding IH' take_Suc_conv_app_nth[OF n] by simp
qed

lemma spliceLoop_all:
  assumes "val part = ''::global'' \<or> val part = ''::local''"
    and "list_all (\<lambda>r. ix < length (nodes r)) reps"
  shows "spliceLoop scope part ix (length reps) reps =
           Some (concat (map (variantsAt scope part ix) reps))"
  using spliceLoop_ok[OF assms(1), of ix "length reps" reps scope] assms(2) by simp


lemma expansions_append:
  "filter (isPart K) mid = [] \<Longrightarrow>
   expansions scope K (mid @ suf) = map (\<lambda>e. map snd mid @ e) (expansions scope K suf)"
proof (induction mid)
  case Nil
  have "map ((@) []) xs = xs" for xs :: "node list list"
    by (rule map_idI) simp
  then show ?case by simp
next
  case (Cons c mid)
  then show ?case by (auto split: if_splits)
qed

lemma length_concat_const: "length (concat (map (\<lambda>x. map (f x) ys) xs)) = length xs * length ys"
  by (induction xs) auto

lemma length_expansions:
  "length (expansions scope K cs)
     = prod_list (map (\<lambda>c. length (nodes (snd c))) (filter (isPart K) cs))"
  by (induction cs) (auto simp: length_concat_const)

lemma filter_eq_snocD:
  "filter P xs = ys @ [y] \<Longrightarrow>
   \<exists>pre mid. xs = pre @ y # mid \<and> filter P pre = ys \<and> filter P mid = [] \<and> P y"
proof (induction xs rule: rev_induct)
  case Nil
  then show ?case by simp
next
  case (snoc x xs)
  show ?case
  proof (cases "P x")
    case True
    with snoc.prems have "filter P xs = ys" "x = y" by auto
    with True show ?thesis by (intro exI[of _ xs] exI[of _ "[]"]) simp
  next
    case False
    with snoc obtain pre mid where "xs = pre @ y # mid" "filter P pre = ys" "filter P mid = []" "P y"
      by auto
    with False show ?thesis by (intro exI[of _ pre] exI[of _ "mid @ [x]"]) simp
  qed
qed

lemma clone_idem' [simp]: "map clone (map clone ns) = map clone ns"
  by simp

lemma variantsAt_nodes:
  assumes "map clone (nodes r) = map clone (A @ z # B)"
  shows "map (map clone \<circ> nodes) (variantsAt scope part (length A) r)
         = map (\<lambda>childSel. map clone (A @ fragment scope part childSel @ B)) (nodes part)"
proof -
  have "take (length A) (map clone (A @ z # B)) = map clone A"
    "drop (Suc (length A)) (map clone (A @ z # B)) = map clone B"
    by simp_all
  then show ?thesis
    using assms by (simp add: variantsAt_def o_def)
qed


lemma list_all2_concat_map:
  assumes "list_all2 P xs ys" and "\<And>x y. P x y \<Longrightarrow> list_all2 Q (F x) (G y)"
  shows "list_all2 Q (concat (map F xs)) (concat (map G ys))"
  using assms(1)
proof (induction rule: list_all2_induct)
  case Nil
  then show ?case by simp
next
  case (Cons x xs y ys)
  then show ?case using assms(2) by (simp add: list_all2_appendI)
qed

lemma list_all2_map_eq:
  "list_all2 (\<lambda>x y. f x = g y) xs ys \<Longrightarrow> map f xs = map g ys"
  by (induction rule: list_all2_induct) simp_all

lemma list_all2_lengths:
  assumes "list_all2 (\<lambda>r e. map clone (nodes r) = map clone (A @ e)) reps es"
  shows "list_all (\<lambda>r. length A \<le> length (nodes r)) reps"
  using assms
proof (induction rule: list_all2_induct)
  case Nil
  then show ?case by simp
next
  case (Cons r reps e es)
  from Cons(1) have "length (map clone (nodes r)) = length (map clone (A @ e))"
    by (rule arg_cong)
  then have "length A \<le> length (nodes r)" by simp
  then show ?case using Cons(3) by simp
qed

lemma expandLoop_inv:
  assumes "distinct (labels (pre @ suf))"
    and "map (\<lambda>p. (Some (fst p), snd p)) (rev rparts) = filter (isPart K) pre"
    and "list_all isLocalGlobal rparts"
    and "list_all2 (\<lambda>r e. map clone (nodes r) = map clone (map snd pre @ e)) reps
           (expansions scope K suf)"
  shows "\<exists>reps'. expandLoop scope (pre @ suf) rparts reps = Some reps'
           \<and> list_all2 (\<lambda>r e. map clone (nodes r) = map clone e) reps'
                (expansions scope K (pre @ suf))"
  using assms
proof (induction rparts arbitrary: pre suf reps)
  case Nil
  then have "filter (isPart K) pre = []" by simp
  then have "expansions scope K (pre @ suf) = map (\<lambda>e. map snd pre @ e) (expansions scope K suf)"
    by (rule expansions_append)
  then show ?case
    using Nil.prems(4) by (simp add: list_all2_map2)
next
  case (Cons part popped)
  obtain k z where part: "part = (k, z)" by (cases part)
  let ?f = "\<lambda>p. (Some (fst p), snd p)"
  have "filter (isPart K) pre = map ?f (rev popped) @ [(Some k, z)]"
    using Cons.prems(2) part by simp
  from filter_eq_snocD[OF this] obtain pre' mid where
    pre: "pre = pre' @ (Some k, z) # mid" and f1: "filter (isPart K) pre' = map ?f (rev popped)"
    and f2: "filter (isPart K) mid = []" and kK: "isPart K (Some k, z)"
    by blast
  let ?suf' = "(Some k, z) # mid @ suf"
  let ?ix = "length pre'"
  have eq: "pre @ suf = pre' @ ?suf'" using pre by simp
  have "k \<notin> set (labels pre')"
    using Cons.prems(1) unfolding pre by simp
  then have ix: "indexOf (pre @ suf) k = Some ?ix"
    unfolding eq by (rule indexOf_split)
  have v: "val z = ''::global'' \<or> val z = ''::local''"
    using Cons.prems(3) part by (simp add: isLocalGlobal_def)
  have "list_all (\<lambda>r. length (map snd pre) \<le> length (nodes r)) reps"
    using list_all2_lengths[OF Cons.prems(4)] .
  then have "list_all (\<lambda>r. ?ix < length (nodes r)) reps"
    unfolding pre by (auto simp: list_all_iff)
  from spliceLoop_all[OF v this] have sp:
    "spliceLoop scope z ?ix (length reps) reps = Some (concat (map (variantsAt scope z ?ix) reps))" .
  let ?reps1 = "concat (map (variantsAt scope z ?ix) reps)"
  have E': "expansions scope K ?suf'
      = concat (map (\<lambda>e. map (\<lambda>childSel. fragment scope z childSel @ map snd mid @ e) (nodes z))
                 (expansions scope K suf))"
    using kK expansions_append[OF f2, of scope suf] by (simp add: o_def)
  have inv1: "list_all2 (\<lambda>r e. map clone (nodes r) = map clone (map snd pre' @ e)) ?reps1
           (expansions scope K ?suf')"
    unfolding E'
  proof (rule list_all2_concat_map[OF Cons.prems(4)])
    fix r e
    assume re: "map clone (nodes r) = map clone (map snd pre @ e)"
    then have "map clone (nodes r) = map clone (map snd pre' @ z # (map snd mid @ e))"
      unfolding pre by simp
    from variantsAt_nodes[OF this, of scope z]
    have "map (map clone \<circ> nodes) (variantsAt scope z (length (map snd pre')) r)
         = map (\<lambda>childSel. map clone (map snd pre' @ fragment scope z childSel @ map snd mid @ e)) (nodes z)" .
    then have "map (map clone \<circ> nodes) (variantsAt scope z ?ix r)
         = map (\<lambda>e'. map clone (map snd pre' @ e'))
             (map (\<lambda>childSel. fragment scope z childSel @ map snd mid @ e) (nodes z))"
      by (simp add: o_def)
    then show "list_all2 (\<lambda>r e. map clone (nodes r) = map clone (map snd pre' @ e))
            (variantsAt scope z ?ix r)
            (map (\<lambda>childSel. fragment scope z childSel @ map snd mid @ e) (nodes z))"
      by (simp add: list_all2_conv_all_nth list_eq_iff_nth_eq)
  qed
  have "distinct (labels (pre' @ ?suf'))" using Cons.prems(1) unfolding eq .
  moreover have "list_all isLocalGlobal popped" using Cons.prems(3) by simp
  ultimately obtain reps' where
    r': "expandLoop scope (pre' @ ?suf') popped ?reps1 = Some reps'"
    "list_all2 (\<lambda>r e. map clone (nodes r) = map clone e) reps' (expansions scope K (pre' @ ?suf'))"
    using Cons.IH[OF _ f1[symmetric] _ inv1] by blast
  have "expandLoop scope (pre @ suf) (part # popped) reps = expandLoop scope (pre @ suf) popped ?reps1"
    using ix sp part by simp
  then show ?case
    using r' unfolding eq by simp
qed


lemma indexOf_SomeD:
  "indexOf cs r = Some i \<Longrightarrow> i < length cs \<and> fst (cs ! i) = Some r \<and> r \<notin> set (labels (take i cs))"
proof (induction cs arbitrary: i)
  case Nil
  then show ?case by simp
next
  case (Cons c cs)
  show ?case
  proof (cases "fst c = Some r")
    case True
    with Cons.prems show ?thesis by simp
  next
    case False
    with Cons.prems obtain j where j: "indexOf cs r = Some j" "i = Suc j" by auto
    from Cons.IH[OF j(1)] False j(2) show ?thesis
      by (cases c; cases "fst c") auto
  qed
qed

lemma isPart_fresh [simp]: "\<not> isPart K (None, n)"
  by (simp add: isPart_def)

lemma isPart_Some [simp]: "isPart K (Some r, n) = (r \<in> K)"
  by (simp add: isPart_def)

lemma rewriteSelectorPart_keeps:
  "distinct (labels cs) \<Longrightarrow> distinct (labels (rewriteSelectorPart cs (r, x) scope))"
  "r \<notin> K \<Longrightarrow> filter (isPart K) (rewriteSelectorPart cs (r, x) scope) = filter (isPart K) cs"
proof -
  have none: "labels (butlast cs @ [(None, n)] @ drop (length cs - 1) cs) = labels cs
      \<and> filter (isPart K) (butlast cs @ [(None, n)] @ drop (length cs - 1) cs) = filter (isPart K) cs"
    for n
  proof -
    have "butlast cs @ drop (length cs - 1) cs = cs"
      by (simp add: butlast_conv_take)
    then have "labels (butlast cs) @ labels (drop (length cs - 1) cs) = labels cs"
      "filter (isPart K) (butlast cs) @ filter (isPart K) (drop (length cs - 1) cs) = filter (isPart K) cs"
      by (metis labels_simps(4), metis filter_append)
    then show ?thesis by simp
  qed
  have some: "cs = take i cs @ (Some r, snd (cs ! i)) # drop (Suc i) cs \<and> r \<notin> set (labels (take i cs))"
    if "indexOf cs r = Some i" for i
    using indexOf_SomeD[OF that] id_take_nth_drop[of i cs] by (cases "cs ! i") auto
  {
    assume d: "distinct (labels cs)"
    show "distinct (labels (rewriteSelectorPart cs (r, x) scope))"
    proof (cases "indexOf cs r")
      case None
      then show ?thesis
        using d none
        by (simp add: rewriteSelectorPart_def replaceWith_def insertBefore_def insertAfter_def Let_def)
    next
      case (Some i)
      from some[OF Some] obtain y where
        cs: "cs = take i cs @ (Some r, y) # drop (Suc i) cs" by blast
      have "distinct (labels (take i cs) @ r # labels (drop (Suc i) cs))"
        using d by (subst (asm) cs) simp
      then show ?thesis
        using Some d
        by (auto simp: rewriteSelectorPart_def replaceWith_def insertBefore_def insertAfter_def Let_def)
    qed
  }
  {
    assume k: "r \<notin> K"
    show "filter (isPart K) (rewriteSelectorPart cs (r, x) scope) = filter (isPart K) cs"
    proof (cases "indexOf cs r")
      case None
      then show ?thesis
        using none
        by (simp add: rewriteSelectorPart_def replaceWith_def insertBefore_def insertAfter_def Let_def)
    next
      case (Some i)
      from some[OF Some] obtain y where
        cs: "cs = take i cs @ (Some r, y) # drop (Suc i) cs" by blast
      have "filter (isPart K) cs = filter (isPart K) (take i cs) @ filter (isPart K) (drop (Suc i) cs)"
        using k by (subst cs) simp
      moreover have "filter (isPart K) (map (Pair None) ns) = []" for ns
        by (induction ns) auto
      ultimately show ?thesis
        using Some k
        by (auto simp: rewriteSelectorPart_def replaceWith_def insertBefore_def insertAfter_def Let_def)
    qed
  }
qed

lemma filter_cells:
  "filter (isPart K) (cells ns) = map (\<lambda>p. (Some (fst p), snd p)) (filter (\<lambda>p. fst p \<in> K) (refs ns))"
  by (simp add: cells_def filter_map o_def)

lemma getCompound_loop_select:
  "distinct (map fst xs) \<Longrightarrow>
   filter (\<lambda>p. fst p \<in> fst ` set (filter P (getCompound_loop xs part))) xs
     = filter P (getCompound_loop xs part)"
proof (induction xs part rule: getCompound_loop.induct)
  case (1 part)
  then show ?case by simp
next
  case (2 c cs part)
  have notin: "fst c \<notin> fst ` set (filter P (getCompound_loop cs p'))" for p'
    using getCompound_loop_subset[of cs p'] 2(4) by (fastforce simp: image_iff)
  have same: "filter (\<lambda>p. fst p \<in> insert (fst c) S) cs = filter (\<lambda>p. fst p \<in> S) cs"
    for S
    using 2(4) by (intro filter_cong) (auto simp: image_iff)
  show ?case
  proof (cases "isCompoundBoundary (snd c)")
    case True
    then have "getCompound_loop (c # cs) part = getCompound_loop cs None" by simp
    then show ?thesis using 2(1)[OF True] 2(4) notin by simp
  next
    case nb: False
    show ?thesis
    proof (cases "part = None")
      case True
      then have g: "getCompound_loop (c # cs) part = c # getCompound_loop cs (Some c)"
        using nb by simp
      have IH: "filter (\<lambda>p. fst p \<in> fst ` set (filter P (getCompound_loop cs (Some c)))) cs
          = filter P (getCompound_loop cs (Some c))"
        using 2(2)[OF nb True] 2(4) by simp
      show ?thesis
      proof (cases "P c")
        case pc: True
        have "fst ` set (filter P (c # getCompound_loop cs (Some c)))
            = insert (fst c) (fst ` set (filter P (getCompound_loop cs (Some c))))"
          using pc by simp
        then show ?thesis
          unfolding g using pc IH same by simp
      next
        case npc: False
        then show ?thesis
          unfolding g using IH notin[of "Some c"] by simp
      qed
    next
      case nz: False
      then have "getCompound_loop (c # cs) part = getCompound_loop cs part"
        using nb by auto
      then show ?thesis
        using 2(3)[OF nb nz] 2(4) notin by simp
    qed
  qed
qed

lemma localGlobal_select:
  "filter (\<lambda>p. fst p \<in> fst ` set (localGlobal sel)) (refs (nodes sel)) = localGlobal sel"
  unfolding localGlobal_def getCompound_def
  by (rule getCompound_loop_select) (simp add: refs_def)

lemma scopable_not_part:
  assumes "p \<in> set (scopable sel)"
  shows "fst p \<notin> fst ` set (localGlobal sel)"
proof
  assume "fst p \<in> fst ` set (localGlobal sel)"
  then obtain q where q: "q \<in> set (localGlobal sel)" "fst q = fst p" by auto
  have "distinct (map fst (getCompound sel))"
    using getCompound_sorted[of sel] by (simp add: strict_sorted_iff)
  then have "inj_on fst (set (getCompound sel))"
    by (simp add: distinct_map)
  moreover have "p \<in> set (getCompound sel)" "q \<in> set (getCompound sel)"
    using assms q(1) by (auto simp: scopable_def localGlobal_def)
  ultimately have "p = q" using q(2) by (auto dest: inj_onD)
  then show False using assms q(1) by (auto simp: scopable_def localGlobal_def)
qed

lemma scopeEnds_parts:
  "distinct (labels (scopeEnds sel scope))"
  "filter (isPart (fst ` set (localGlobal sel))) (scopeEnds sel scope)
     = map (\<lambda>p. (Some (fst p), snd p)) (localGlobal sel)"
proof -
  let ?K = "fst ` set (localGlobal sel)"
  have c: "distinct (labels (cells (nodes sel)))"
    "filter (isPart ?K) (cells (nodes sel)) = map (\<lambda>p. (Some (fst p), snd p)) (localGlobal sel)"
    by (simp_all add: filter_cells localGlobal_select)
  show "distinct (labels (scopeEnds sel scope))"
    "filter (isPart ?K) (scopeEnds sel scope) = map (\<lambda>p. (Some (fst p), snd p)) (localGlobal sel)"
  proof (atomize (full), cases "scopable sel")
    case Nil
    then show "distinct (labels (scopeEnds sel scope)) \<and>
      filter (isPart ?K) (scopeEnds sel scope) = map (\<lambda>p. (Some (fst p), snd p)) (localGlobal sel)"
      using c by (simp add: scopeEnds_def scopable_def[symmetric])
  next
    case (Cons first rest)
    obtain i x where first: "first = (i, x)" by (cases first)
    have i: "i \<notin> ?K" using scopable_not_part[of first sel] Cons first by simp
    let ?s1 = "rewriteSelectorPart (cells (nodes sel)) (i, x) scope"
    have s1: "distinct (labels ?s1)"
      "filter (isPart ?K) ?s1 = map (\<lambda>p. (Some (fst p), snd p)) (localGlobal sel)"
      using rewriteSelectorPart_keeps(1)[OF c(1)] rewriteSelectorPart_keeps(2)[OF i] c(2) by simp_all
    show "distinct (labels (scopeEnds sel scope)) \<and>
      filter (isPart ?K) (scopeEnds sel scope) = map (\<lambda>p. (Some (fst p), snd p)) (localGlobal sel)"
    proof (cases "rest = []")
      case True
      then show ?thesis
        using s1 Cons first by (simp add: scopeEnds_def scopable_def[symmetric])
    next
      case False
      obtain j y where l: "last rest = (j, y)" by (cases "last rest")
      then have "(j, y) \<in> set (scopable sel)" using False Cons last_in_set[of rest] by auto
      then have j: "j \<notin> ?K" using scopable_not_part[of "(j, y)" sel] by simp
      show ?thesis
        using rewriteSelectorPart_keeps(1)[OF s1(1), of j y scope]
          rewriteSelectorPart_keeps(2)[OF j, of ?s1 y scope] s1(2) Cons first False l
        by (simp add: scopeEnds_def scopable_def[symmetric])
    qed
  qed
qed


lemma expansion_general:
  "\<exists>reps. inRoot (rewriteSelector sel scope) = Some reps
     \<and> length reps = prod_list (map (\<lambda>part. length (nodes (snd part))) (localGlobal sel))
     \<and> map (map clone \<circ> nodes) reps
         = map (map clone) (expansions scope (fst ` set (localGlobal sel)) (scopeEnds sel scope))"
proof -
  let ?LG = "localGlobal sel"
  let ?K = "fst ` set ?LG"
  let ?scoped = "scopeEnds sel scope"
  let ?sel' = "set_nodes sel (map snd ?scoped)"
  let ?f = "\<lambda>p. (Some (fst p), snd p)"
  have parts: "filter (isPart ?K) ?scoped = map ?f ?LG"
    by (rule scopeEnds_parts(2))
  have len: "length (expansions scope ?K ?scoped)
      = prod_list (map (\<lambda>part. length (nodes (snd part))) ?LG)"
    unfolding length_expansions parts by (simp add: o_def)
  show ?thesis
  proof (cases "?LG = []")
    case True
    then have "filter (isPart ?K) ?scoped = []" using parts by simp
    from expansions_append[OF this, of scope "[]"]
    have "expansions scope ?K ?scoped = [map snd ?scoped]" by simp
    moreover have "inRoot (rewriteSelector sel scope) = Some [?sel']"
      using True by (simp add: rewriteSelector_def localGlobal_def inRoot_def Let_def)
    ultimately show ?thesis using len by simp
  next
    case False
    have "distinct (labels (?scoped @ []))"
      using scopeEnds_parts(1)[of sel scope] by simp
    moreover have "map ?f (rev (rev ?LG)) = filter (isPart ?K) ?scoped"
      using parts by simp
    moreover have "list_all isLocalGlobal (rev ?LG)"
      by (simp add: localGlobal_def list_all_iff)
    moreover have "list_all2 (\<lambda>r e. map clone (nodes r) = map clone (map snd ?scoped @ e))
        [clone ?sel'] (expansions scope ?K [])"
      by simp
    ultimately obtain reps where
      r: "expandLoop scope (?scoped @ []) (rev ?LG) [clone ?sel'] = Some reps"
      "list_all2 (\<lambda>r e. map clone (nodes r) = map clone e) reps (expansions scope ?K (?scoped @ []))"
      using expandLoop_inv[of ?scoped "[]" "rev ?LG" ?K "[clone ?sel']" scope] by blast
    have "inRoot (rewriteSelector sel scope) = Some reps"
      using False r(1) by (simp add: rewriteSelector_def localGlobal_def inRoot_def Let_def)
    moreover have "length reps = length (expansions scope ?K ?scoped)"
      using r(2) by (auto dest: list_all2_lengthD)
    moreover have "map (map clone \<circ> nodes) reps = map (map clone) (expansions scope ?K ?scoped)"
      using list_all2_map_eq[of "map clone \<circ> nodes" "map clone" reps "expansions scope ?K ?scoped"] r(2)
      by simp
    ultimately show ?thesis using len by simp
  qed
qed

lemma sample_global:
  "map_option (map toString) (inRoot (handleSelector ''s'' divGlobalSpan))
     = Some [''div[s] a span[s]'', ''div[s]  b span[s]'']"
  "map_option (map (map (\<lambda>n. (ntype n, val n)) \<circ> nodes)) (inRoot (handleSelector ''s'' divGlobalSpan))
     = Some [[(TagT, ''div''), (AttributeT, ''s''), (CombinatorT, '' ''), (TagT, ''a''),
              (CombinatorT, '' ''), (TagT, ''span''), (AttributeT, ''s'')],
             [(TagT, ''div''), (AttributeT, ''s''), (CombinatorT, '' ''), (TagT, ''b''),
              (CombinatorT, '' ''), (TagT, ''span''), (AttributeT, ''s'')]]"
  by (simp_all add: divGlobalSpan_def inRoot_def handleSelector_def rewriteRefs_def rewriteSlotted_def
      rewriteSelector_def scopeEnds_def getCompound_def refs_def cells_def selector_def mk_def
      pseudo_def descendant_def set_nodes_def isCompoundBoundary_def isLocalGlobal_def
      rewriteSelectorPart_def insertAfter_def scopeElement_def set_after_def upt_rec
      replaceAt_def fragment_def Let_def)

lemma sample_local:
  "map_option (map toString) (inRoot (handleSelector ''s'' xLocalY))
     = Some [''x[s] [s-host] p y[s]'', ''x[s] [s-host]  q y[s]'']"
  by (simp_all add: xLocalY_def inRoot_def handleSelector_def rewriteRefs_def rewriteSlotted_def
      rewriteSelector_def scopeEnds_def getCompound_def refs_def cells_def selector_def mk_def
      pseudo_def descendant_def set_nodes_def isCompoundBoundary_def isLocalGlobal_def
      rewriteSelectorPart_def insertAfter_def scopeElement_def set_after_def upt_rec
      replaceAt_def fragment_def scopeHost_def Let_def)

text \<open>
  C1, as the code has it.  \<open>rewriteSelector\<close> never fails, and it puts as many
  selectors in the place of the selector as the product, over the \<open>::global\<close> and
  \<open>::local\<close> compound representatives, of the numbers of their alternatives (one
  selector, the selector itself, when there is no such part).  Up to the \<open>processed\<close>
  marks, which a copy drops, their nodes are those of \<open>expansions\<close> for the selector
  with its ends scoped: one selector for every choice of alternatives, each
  \<open>::global\<close> part replaced by the nodes of the alternative, each \<open>::local\<close> part
  by the scope-host attribute, a space string and the nodes of the alternative.  The
  first and the last of the other representatives are scoped as in every selector,
  so the two samples carry the scope attribute at both ends.
\<close>

theorem global_local_expansion:
  "(\<exists>reps. inRoot (rewriteSelector sel scope) = Some reps
      \<and> length reps = prod_list (map (\<lambda>part. length (nodes (snd part))) (localGlobal sel))
      \<and> map (map clone \<circ> nodes) reps
          = map (map clone) (expansions scope (fst ` set (localGlobal sel)) (scopeEnds sel scope)))
   \<and> map_option (map toString) (inRoot (handleSelector ''s'' divGlobalSpan))
       = Some [''div[s] a span[s]'', ''div[s]  b span[s]'']
   \<and> map_option (map toString) (inRoot (handleSelector ''s'' xLocalY))
       = Some [''x[s] [s-host] p y[s]'', ''x[s] [s-host]  q y[s]'']"
  using expansion_general sample_global(1) sample_local by blast

text \<open>
  C1 as the specification words it fails on its own samples: the outputs for
  \<open>div ::global(a, b) span\<close> are not \<open>div a span\<close> and \<open>div b span\<close>, because
  \<open>div\<close> and \<open>span\<close> are the first and the last scopable representative and get
  the scope attribute; the same holds for \<open>x ::local(p, q) y\<close>.
\<close>

theorem expansion_samples_scoped_at_ends:
  "map_option (map toString) (inRoot (handleSelector ''s'' divGlobalSpan))
     \<noteq> Some [''div a span'', ''div b span'']
   \<and> map_option (map (map (\<lambda>n. (ntype n, val n)) \<circ> nodes)) (inRoot (handleSelector ''s'' divGlobalSpan))
     = Some [[(TagT, ''div''), (AttributeT, ''s''), (CombinatorT, '' ''), (TagT, ''a''),
              (CombinatorT, '' ''), (TagT, ''span''), (AttributeT, ''s'')],
             [(TagT, ''div''), (AttributeT, ''s''), (CombinatorT, '' ''), (TagT, ''b''),
              (CombinatorT, '' ''), (TagT, ''span''), (AttributeT, ''s'')]]
   \<and> map_option (map toString) (inRoot (handleSelector ''s'' xLocalY))
     \<noteq> Some [''x [s-host] p y'', ''x [s-host] q y'']"
  unfolding sample_global sample_local by simp

end
